theory Spec2Isabelle
  imports Main "HOL-Library.Sublist" "HOL-Library.Multiset"
begin

section \<open>Go strings\<close>

text \<open>
  A Go string is a sequence of bytes; \<open>string\<close> (a list of 8-bit characters) is the
  same thing.  The functions of package \<open>strings\<close> that the scanner uses are
  modelled on bytes, as Go defines them.
\<close>

definition TrimPrefix :: "string \<Rightarrow> string \<Rightarrow> string" where
  \<comment> \<open>\<open>strings.TrimPrefix(s, p)\<close>: \<open>s\<close> without the leading \<open>p\<close>, or \<open>s\<close> itself.\<close>
  "TrimPrefix s p = (if prefix p s then drop (length p) s else s)"

fun index_from :: "char \<Rightarrow> string \<Rightarrow> nat \<Rightarrow> int" where
  "index_from c [] i = - 1"
| "index_from c (x # xs) i = (if x = c then int i else index_from c xs (Suc i))"

definition Index :: "string \<Rightarrow> char \<Rightarrow> int" where
  \<comment> \<open>\<open>strings.Index(s, sep)\<close> for a separator of one byte: the position of its first
      occurrence, or \<open>-1\<close>.\<close>
  "Index s c = index_from c s 0"

definition space_runes :: "string list" where
  \<comment> \<open>The UTF-8 encodings of the runes for which \<open>unicode.IsSpace\<close> holds: tab, line
      feed, vertical tab, form feed, carriage return, space, U+0085, U+00A0, U+1680,
      U+2000 to U+200A, U+2028, U+2029, U+202F, U+205F and U+3000.\<close>
  "space_runes =
    [[CHR 0x09], [CHR 0x0A], [CHR 0x0B], [CHR 0x0C], [CHR 0x0D], [CHR 0x20],
     [CHR 0xC2, CHR 0x85], [CHR 0xC2, CHR 0xA0],
     [CHR 0xE1, CHR 0x9A, CHR 0x80],
     [CHR 0xE2, CHR 0x80, CHR 0x80], [CHR 0xE2, CHR 0x80, CHR 0x81],
     [CHR 0xE2, CHR 0x80, CHR 0x82], [CHR 0xE2, CHR 0x80, CHR 0x83],
     [CHR 0xE2, CHR 0x80, CHR 0x84], [CHR 0xE2, CHR 0x80, CHR 0x85],
     [CHR 0xE2, CHR 0x80, CHR 0x86], [CHR 0xE2, CHR 0x80, CHR 0x87],
     [CHR 0xE2, CHR 0x80, CHR 0x88], [CHR 0xE2, CHR 0x80, CHR 0x89],
     [CHR 0xE2, CHR 0x80, CHR 0x8A],
     [CHR 0xE2, CHR 0x80, CHR 0xA8], [CHR 0xE2, CHR 0x80, CHR 0xA9],
     [CHR 0xE2, CHR 0x80, CHR 0xAF],
     [CHR 0xE2, CHR 0x81, CHR 0x9F],
     [CHR 0xE3, CHR 0x80, CHR 0x80]]"

definition leading_space :: "string \<Rightarrow> nat" where
  \<comment> \<open>The width in bytes of the white-space rune that \<open>s\<close> starts with, \<open>0\<close> when the
      first rune (or invalid byte) is not white space.\<close>
  "leading_space s =
     (case find (\<lambda>e. prefix e s) space_runes of None \<Rightarrow> 0 | Some e \<Rightarrow> length e)"

definition trailing_space :: "string \<Rightarrow> nat" where
  \<comment> \<open>The same for the last rune of \<open>s\<close>, as \<open>utf8.DecodeLastRuneInString\<close> reads it.\<close>
  "trailing_space s =
     (case find (\<lambda>e. suffix e s) space_runes of None \<Rightarrow> 0 | Some e \<Rightarrow> length e)"

function TrimLeftSpace :: "string \<Rightarrow> string" where
  "TrimLeftSpace s =
     (if leading_space s = 0 then s else TrimLeftSpace (drop (leading_space s) s))"
  by pat_completeness auto
termination
proof (relation "measure length")
  show "wf (measure length)" by simp
next
  fix s :: string
  assume "leading_space s \<noteq> 0"
  moreover have "leading_space s \<le> length s"
    by (auto simp: leading_space_def find_Some_iff prefix_def split: option.splits)
  ultimately show "(drop (leading_space s) s, s) \<in> measure length" by simp
qed

function TrimRightSpace :: "string \<Rightarrow> string" where
  "TrimRightSpace s =
     (if trailing_space s = 0 then s
      else TrimRightSpace (take (length s - trailing_space s) s))"
  by pat_completeness auto
termination
proof (relation "measure length")
  show "wf (measure length)" by simp
next
  fix s :: string
  assume "trailing_space s \<noteq> 0"
  moreover have "trailing_space s \<le> length s"
    by (auto simp: trailing_space_def find_Some_iff suffix_def split: option.splits)
  ultimately show "(take (length s - trailing_space s) s, s) \<in> measure length" by simp
qed

definition TrimSpace :: "string \<Rightarrow> string" where
  \<comment> \<open>\<open>strings.TrimSpace\<close>: all leading and all trailing white-space runes removed.\<close>
  "TrimSpace s = TrimRightSpace (TrimLeftSpace s)"

section \<open>The identity normalizer\<close>

definition cleanDomain :: "string \<Rightarrow> string" where
  "cleanDomain domain0 =
     (let domain1 = TrimPrefix domain0 ''https://'';
          domain2 = TrimPrefix domain1 ''http://'';
          domain3 = (let idx = Index domain2 (CHR ''/'')
                     in if idx \<noteq> - 1 then take (nat idx) domain2 else domain2);
          domain4 = (let idx = Index domain3 (CHR '':'')
                     in if idx \<noteq> - 1 then take (nat idx) domain3 else domain3);
          domain5 = TrimPrefix domain4 ''*.''
      in TrimSpace domain5)"

text \<open>
  The normalizer as the specification words it: strip one leading scheme, truncate at
  the first slash, truncate at the first colon, strip a leading wildcard marker, trim
  white space.
\<close>

definition strip_scheme :: "string \<Rightarrow> string" where
  "strip_scheme s =
     (if prefix ''https://'' s then drop (length ''https://'') s
      else if prefix ''http://'' s then drop (length ''http://'') s
      else s)"

definition truncate_at :: "char \<Rightarrow> string \<Rightarrow> string" where
  "truncate_at c s = takeWhile (\<lambda>x. x \<noteq> c) s"

definition strip_wildcard :: "string \<Rightarrow> string" where
  "strip_wildcard s = (if prefix ''*.'' s then drop (length ''*.'') s else s)"

definition normalize_spec :: "string \<Rightarrow> string" where
  "normalize_spec x =
     TrimSpace (strip_wildcard (truncate_at (CHR '':'') (truncate_at (CHR ''/'') (strip_scheme x))))"

section \<open>The change-tracking store\<close>

text \<open>
  Package \<open>database\<close>.  Instants of \<open>time.Time\<close> are integers.  The SQLite tables
  \<open>domains\<close> and \<open>status_changes\<close> are lists of rows in insertion order, each with the
  counter of its \<open>AUTOINCREMENT\<close> key.  Every statement either takes effect or fails
  and leaves the tables as they were; whether it fails for a reason outside the tables
  (a locked or full database, a lost connection) is an input of the model.
\<close>

type_synonym time = int

datatype error =
    StoreError
  | UniqueConstraint
  | RegistryError
  | FailedToFetchPrograms error
  | SubfinderNotFound
  | SubfinderTimeout
  | SubfinderFailed
  | ScannerError
  | DomainNotReachable
  | TransportError

record Domain =
  ID :: int
  Domain :: string
  Program :: string
  Status :: string
  DiscoveredAt :: time
  LastChecked :: time
  IsNew :: bool

record domains_row =
  row_id :: int
  domain :: string
  program :: string
  status :: string
  discovered_at :: time
  last_checked :: time
  is_new :: bool
  created_at :: time

record status_changes_row =
  change_id :: int
  change_domain :: string
  change_program :: string
  old_status :: string
  new_status :: string
  changed_at :: time
  notified :: bool
  change_created_at :: time

record DB =
  domains :: "domains_row list"
  domains_seq :: int
  status_changes :: "status_changes_row list"
  status_changes_seq :: int

definition empty_DB :: DB where
  \<comment> \<open>The tables as \<open>createTables\<close> makes them.\<close>
  "empty_DB = \<lparr>domains = [], domains_seq = 0, status_changes = [], status_changes_seq = 0\<rparr>"

record store_io =
  query_fails :: bool
  insert_fails :: bool
  change_fails :: bool
  update_fails :: bool
  now :: time

datatype lookup = ErrNoRows | QueryError | Row int bool string

definition has_key :: "string \<Rightarrow> string \<Rightarrow> domains_row \<Rightarrow> bool" where
  \<comment> \<open>\<open>WHERE domain = ? AND program = ?\<close>\<close>
  "has_key d p r = (domain r = d \<and> program r = p)"

definition query_domain :: "store_io \<Rightarrow> Domain \<Rightarrow> DB \<Rightarrow> lookup" where
  \<comment> \<open>\<open>SELECT id, is_new, status FROM domains WHERE domain = ? AND program = ?\<close>,
      scanned by \<open>QueryRow\<close>: the first row found, \<open>sql.ErrNoRows\<close> when there is none.\<close>
  "query_domain io d db =
     (if query_fails io then QueryError
      else case find (has_key (Domain d) (Program d)) (domains db) of
             None \<Rightarrow> ErrNoRows
           | Some r \<Rightarrow> Row (row_id r) (is_new r) (status r))"

definition insert_domain :: "store_io \<Rightarrow> Domain \<Rightarrow> DB \<Rightarrow> error option \<times> DB" where
  \<comment> \<open>\<open>INSERT INTO domains (domain, program, status, discovered_at, last_checked, is_new)
      VALUES (?, ?, ?, ?, ?, 1)\<close>; the table has \<open>UNIQUE(domain, program)\<close>.\<close>
  "insert_domain io d db =
     (if insert_fails io then (Some StoreError, db)
      else if list_ex (has_key (Domain d) (Program d)) (domains db)
        then (Some UniqueConstraint, db)
      else (None,
        db\<lparr>domains := domains db @
              [\<lparr>row_id = domains_seq db + 1, domain = Domain d, program = Program d,
                status = Status d, discovered_at = DiscoveredAt d,
                last_checked = LastChecked d, is_new = True, created_at = now io\<rparr>],
           domains_seq := domains_seq db + 1\<rparr>))"

definition insert_status_change ::
  "store_io \<Rightarrow> Domain \<Rightarrow> string \<Rightarrow> DB \<Rightarrow> error option \<times> DB" where
  \<comment> \<open>\<open>INSERT INTO status_changes (domain, program, old_status, new_status, changed_at,
      notified) VALUES (?, ?, ?, ?, ?, 0)\<close> with \<open>time.Now()\<close> for \<open>changed_at\<close>.\<close>
  "insert_status_change io d oldStatus db =
     (if change_fails io then (Some StoreError, db)
      else (None,
        db\<lparr>status_changes := status_changes db @
              [\<lparr>change_id = status_changes_seq db + 1, change_domain = Domain d,
                change_program = Program d, old_status = oldStatus, new_status = Status d,
                changed_at = now io, notified = False, change_created_at = now io\<rparr>],
           status_changes_seq := status_changes_seq db + 1\<rparr>))"

definition update_domain :: "store_io \<Rightarrow> Domain \<Rightarrow> int \<Rightarrow> DB \<Rightarrow> error option \<times> DB" where
  \<comment> \<open>\<open>UPDATE domains SET status = ?, last_checked = ?, is_new = ? WHERE id = ?\<close>\<close>
  "update_domain io d existingID db =
     (if update_fails io then (Some StoreError, db)
      else (None,
        db\<lparr>domains :=
             map (\<lambda>r. if row_id r = existingID
                       then r\<lparr>status := Status d, last_checked := LastChecked d,
                              is_new := False\<rparr>
                       else r)
                 (domains db)\<rparr>))"

definition finish_SaveDomain ::
  "store_io \<Rightarrow> Domain \<Rightarrow> lookup \<Rightarrow> DB \<Rightarrow> error option \<times> DB" where
  \<comment> \<open>\<open>SaveDomain\<close> after its query: the branches on the query's outcome.  The error of
      the insert into \<open>status_changes\<close> is dropped, as in the source.\<close>
  "finish_SaveDomain io d found db =
     (case found of
        ErrNoRows \<Rightarrow> insert_domain io d db
      | QueryError \<Rightarrow> (Some StoreError, db)
      | Row existingID existingIsNew oldStatus \<Rightarrow>
          (let db1 = (if oldStatus \<noteq> Status d
                      then snd (insert_status_change io d oldStatus db)
                      else db)
           in update_domain io d existingID db1))"

definition SaveDomain :: "store_io \<Rightarrow> Domain \<Rightarrow> DB \<Rightarrow> error option \<times> DB" where
  "SaveDomain io d db = finish_SaveDomain io d (query_domain io d db) db"

fun SaveDomains :: "(store_io \<times> Domain) list \<Rightarrow> DB \<Rightarrow> DB" where
  \<comment> \<open>A sequence of \<open>SaveDomain\<close> calls, one after the other.\<close>
  "SaveDomains [] db = db"
| "SaveDomains ((io, d) # calls) db = SaveDomains calls (snd (SaveDomain io d db))"

text \<open>
  \<open>SaveDomain\<close> runs its query and its writes as separate statements, outside any
  transaction and without a lock.  Two calls running in different goroutines can
  therefore interleave between the query and the writes.  A call in progress is at one
  of these points; a schedule says which of two calls moves next.
\<close>

datatype call = Called Domain | Queried Domain lookup | Returned "error option"

fun advance :: "store_io \<Rightarrow> call \<Rightarrow> DB \<Rightarrow> call \<times> DB" where
  "advance io (Called d) db = (Queried d (query_domain io d db), db)"
| "advance io (Queried d found) db =
     (case finish_SaveDomain io d found db of (err, db') \<Rightarrow> (Returned err, db'))"
| "advance io (Returned err) db = (Returned err, db)"

fun interleave :: "store_io \<Rightarrow> bool list \<Rightarrow> call \<times> call \<times> DB \<Rightarrow> call \<times> call \<times> DB" where
  "interleave io [] c = c"
| "interleave io (first # sched) (a, b, db) =
     (if first
      then (case advance io a db of (a', db') \<Rightarrow> interleave io sched (a', b, db'))
      else (case advance io b db of (b', db') \<Rightarrow> interleave io sched (a, b', db')))"

definition stored_status :: "string \<Rightarrow> string \<Rightarrow> DB \<Rightarrow> string option" where
  \<comment> \<open>The status the store holds for a key, if it holds the key.\<close>
  "stored_status d p db = map_option status (find (has_key d p) (domains db))"

fun transitions :: "string option \<Rightarrow> string list \<Rightarrow> (string \<times> string) list" where
  \<comment> \<open>The changes of status in a sequence of observations that follows a stored status.\<close>
  "transitions prior [] = []"
| "transitions None (s # ss) = transitions (Some s) ss"
| "transitions (Some s0) (s # ss) =
     (if s0 \<noteq> s then [(s0, s)] else []) @ transitions (Some s) ss"

definition no_faults :: "store_io \<Rightarrow> bool" where
  "no_faults io =
     (\<not> query_fails io \<and> \<not> insert_fails io \<and> \<not> change_fails io \<and> \<not> update_fails io)"

definition key_of :: "domains_row \<Rightarrow> string \<times> string" where
  \<comment> \<open>The identity key of a row of \<open>domains\<close>.\<close>
  "key_of r = (domain r, program r)"

definition ids_ok :: "DB \<Rightarrow> bool" where
  \<comment> \<open>\<open>id INTEGER PRIMARY KEY AUTOINCREMENT\<close>: no two rows of \<open>domains\<close> share an id, and
      no id is above the counter.\<close>
  "ids_ok db =
     (distinct (map row_id (domains db)) \<and> (\<forall>r \<in> set (domains db). row_id r \<le> domains_seq db))"

section \<open>The reachability prober\<close>

text \<open>
  Package \<open>healthcheck\<close>.  What the network answers is an input: whether
  \<open>http.NewRequestWithContext\<close> builds a request for a URL, and what \<open>client.Do\<close>
  returns for it, an error (connection, TLS, timeout, cancelled context) or the status
  code of the response.
\<close>

record http_world =
  new_request :: "string \<Rightarrow> bool"
  client_do :: "string \<Rightarrow> error + int"

record CheckResult =
  cr_Domain :: string
  cr_Status :: string
  cr_Error :: "error option"

fun try_urls :: "http_world \<Rightarrow> string list \<Rightarrow> bool \<times> string list" where
  \<comment> \<open>The loop of \<open>CheckDomain\<close> over its URLs: whether it returns \<open>up\<close> from inside the
      loop, and the URLs it has sent a request to, in order.\<close>
  "try_urls w [] = (False, [])"
| "try_urls w (url # urls) =
     (if \<not> new_request w url then try_urls w urls
      else case client_do w url of
             Inl err \<Rightarrow> (case try_urls w urls of (up, sent) \<Rightarrow> (up, url # sent))
           | Inr StatusCode \<Rightarrow>
               if StatusCode < 500 then (True, [url])
               else (case try_urls w urls of (up, sent) \<Rightarrow> (up, url # sent)))"

definition CheckDomain :: "http_world \<Rightarrow> string \<Rightarrow> CheckResult" where
  "CheckDomain w d =
     (let urls = [''https://'' @ d, ''http://'' @ d]
      in if fst (try_urls w urls)
         then \<lparr>cr_Domain = d, cr_Status = ''up'', cr_Error = None\<rparr>
         else \<lparr>cr_Domain = d, cr_Status = ''down'', cr_Error = Some DomainNotReachable\<rparr>)"

definition requests_sent :: "http_world \<Rightarrow> string \<Rightarrow> string list" where
  \<comment> \<open>The URLs \<open>CheckDomain\<close> calls \<open>client.Do\<close> on, in order.\<close>
  "requests_sent w d = snd (try_urls w [''https://'' @ d, ''http://'' @ d])"

definition answers :: "http_world \<Rightarrow> string \<Rightarrow> bool" where
  \<comment> \<open>A request to the URL gets a response with a status code below 500.\<close>
  "answers w url =
     (new_request w url \<and>
      (case client_do w url of Inl err \<Rightarrow> False | Inr StatusCode \<Rightarrow> StatusCode < 500))"

definition responds :: "http_world \<Rightarrow> string \<Rightarrow> bool" where
  \<comment> \<open>A request to the URL gets a response at all.\<close>
  "responds w url =
     (new_request w url \<and> (case client_do w url of Inl err \<Rightarrow> False | Inr StatusCode \<Rightarrow> True))"

text \<open>
  \<open>CheckDomains\<close> queues the domains, starts \<open>workers\<close> goroutines that take domains from
  the queue and probe them until the context is done, collects what they send into a
  map keyed by domain, and then builds one result per position of the input.  Which
  positions of the queue were probed before the workers stopped, and in which order
  their results arrived, depends on timing: it is the schedule, a list of positions.
  No worker runs when \<open>workers\<close> is not positive.
\<close>

definition positions :: "nat list \<Rightarrow> nat \<Rightarrow> nat list" where
  \<comment> \<open>The positions below \<open>n\<close> that a schedule names, each once.\<close>
  "positions sched n = remdups (filter (\<lambda>i. i < n) sched)"

definition probed :: "int \<Rightarrow> nat list \<Rightarrow> string list \<Rightarrow> string list" where
  "probed workers sched ds =
     (if workers \<le> 0 then [] else map (\<lambda>i. ds ! i) (positions sched (length ds)))"

definition CheckDomains :: "http_world \<Rightarrow> int \<Rightarrow> nat list \<Rightarrow> string list \<Rightarrow> CheckResult list" where
  "CheckDomains w workers sched ds =
     (let received = map (CheckDomain w) (probed workers sched ds);
          resultMap = foldl (\<lambda>m result. m(cr_Domain result \<mapsto> result)) Map.empty received
      in map (\<lambda>d. case resultMap d of
                     Some result \<Rightarrow> result
                   | None \<Rightarrow> \<lparr>cr_Domain = d, cr_Status = ''unknown'', cr_Error = None\<rparr>)
             ds)"

section \<open>The asset expansion adapter\<close>

text \<open>
  Package \<open>discovery\<close>.  Whether \<open>subfinder\<close> is found in \<open>PATH\<close> and what a run of it
  yields (its standard output, whether \<open>cmd.Output\<close> returned an error, whether the 30
  second deadline of the command had passed) are inputs.
\<close>

record tool_run =
  stdout :: string
  run_err :: bool
  deadline_exceeded :: bool

record discovery_world =
  subfinder_in_PATH :: bool
  run_subfinder :: "string \<Rightarrow> tool_run"

definition MaxScanTokenSize :: nat where
  \<comment> \<open>\<open>bufio.MaxScanTokenSize\<close>: a line that does not fit the scanner's buffer of this
      size ends the scan with \<open>bufio.ErrTooLong\<close>.\<close>
  "MaxScanTokenSize = 64 * 1024"

fun scan_lines :: "string \<Rightarrow> string \<Rightarrow> string list" where
  \<comment> \<open>The lines \<open>bufio.ScanLines\<close> cuts at line feeds, before it drops a trailing
      carriage return; an empty last line is not a line.\<close>
  "scan_lines [] cur = (if cur = [] then [] else [cur])"
| "scan_lines (c # s) cur =
     (if c = CHR 0x0A then cur # scan_lines s [] else scan_lines s (cur @ [c]))"

definition dropCR :: "string \<Rightarrow> string" where
  "dropCR s = (if s \<noteq> [] \<and> last s = CHR 0x0D then butlast s else s)"

definition DiscoverSubdomains :: "discovery_world \<Rightarrow> string \<Rightarrow> error + string list" where
  "DiscoverSubdomains w d =
     (if \<not> subfinder_in_PATH w then Inl SubfinderNotFound
      else let r = run_subfinder w d in
        if run_err r \<and> deadline_exceeded r then Inl SubfinderTimeout
        else if run_err r \<and> stdout r = [] then Inl SubfinderFailed
        else let raw = scan_lines (stdout r) [] in
          if list_ex (\<lambda>l. MaxScanTokenSize \<le> length l) raw then Inl ScannerError
          else Inr (filter (\<lambda>line. line \<noteq> []) (map (\<lambda>l. TrimSpace (dropCR l)) raw)))"

fun unique_loop :: "string list \<Rightarrow> (string \<Rightarrow> bool) \<Rightarrow> string list \<Rightarrow> string list" where
  \<comment> \<open>The deduplication loop of \<open>DiscoverDomains\<close>, with its map \<open>unique\<close> and its slice
      \<open>result\<close>.\<close>
  "unique_loop [] unique result = result"
| "unique_loop (subdomain # rest) unique result =
     (if \<not> unique subdomain
      then unique_loop rest (unique(subdomain := True)) (result @ [subdomain])
      else unique_loop rest unique result)"

text \<open>
  \<open>DiscoverDomains\<close> starts one goroutine per base domain and waits for all of them or
  for its deadline of five minutes.  The schedule lists the positions of the base
  domains whose goroutine had added its subdomains by then, in the order of adding.
\<close>

definition DiscoverDomains ::
  "discovery_world \<Rightarrow> nat list \<Rightarrow> string list \<Rightarrow> string list \<times> error option" where
  "DiscoverDomains w sched ds =
     (if \<not> subfinder_in_PATH w then ([], None)
      else let allSubdomains =
                 concat (map (\<lambda>i. case DiscoverSubdomains w (ds ! i) of
                                     Inl err \<Rightarrow> []
                                   | Inr subdomains \<Rightarrow> subdomains)
                             (positions sched (length ds)))
           in (unique_loop allSubdomains (\<lambda>s. False) [], None))"

section \<open>The program processor and the scan orchestrator\<close>

text \<open>
  Package \<open>scheduler\<close>.  The state is the store, the table \<open>programs\<close> of the same
  database, and the lines written with \<open>log.Printf\<close>, as events.
\<close>

record h1_Program =
  Name :: string
  Handle :: string
  URL :: string
  Attr_Domain :: string
  OffersBounties :: bool
  SubmissionState :: string

record db_Program =
  db_Name :: string
  db_Handle :: string
  db_URL :: string
  db_Domain :: string
  db_OffersBounties :: bool
  ProgramType :: string

record programs_row =
  prog_id :: int
  prog_name :: string
  prog_handle :: string
  prog_url :: string
  prog_domain :: "string option"
  prog_offers_bounties :: "bool option"
  prog_type :: "string option"
  prog_last_scanned :: time

datatype event =
    StartingScan
  | FetchingPrograms
  | FoundPrograms nat
  | ScanCompleted
  | ProcessingProgram string string
  | ErrorSavingProgram string error
  | ErrorGettingScope string error
  | UsingProgramDomain string string
  | NoDomainsFound string
  | FoundScopeDomains nat string
  | DiscoveringSubdomains nat string
  | DiscoveryFailed string error
  | DiscoveredSubdomains nat string
  | NoSubdomainsDiscovered string nat
  | CheckingHealth nat string
  | ErrorSavingDomain string error
  | CompletedProgram string

record state =
  store :: DB
  programs :: "programs_row list"
  programs_seq :: int
  logged :: "event list"

definition say :: "event \<Rightarrow> state \<Rightarrow> state" where
  "say e st = st\<lparr>logged := logged st @ [e]\<rparr>"

datatype exec_outcome = ExecOK | NoSuchColumn | ExecFails

record program_io =
  exec_new_schema :: exec_outcome
  exec_old_schema_fails :: bool
  program_now :: time

definition replace_program :: "programs_row \<Rightarrow> state \<Rightarrow> state" where
  \<comment> \<open>\<open>INSERT OR REPLACE INTO programs\<close>, whose \<open>handle\<close> is \<open>UNIQUE\<close>: the row of the same
      handle goes, the new row comes with a new id.\<close>
  "replace_program row st =
     st\<lparr>programs := filter (\<lambda>r. prog_handle r \<noteq> prog_handle row) (programs st) @
                       [row\<lparr>prog_id := programs_seq st + 1\<rparr>],
        programs_seq := programs_seq st + 1\<rparr>"

definition SaveProgram :: "program_io \<Rightarrow> db_Program \<Rightarrow> state \<Rightarrow> error option \<times> state" where
  \<comment> \<open>The insert with all columns first; after an error that says \<open>no such column\<close>, the
      insert with the columns of the old schema.\<close>
  "SaveProgram io p st =
     (case exec_new_schema io of
        ExecOK \<Rightarrow>
          (None, replace_program
             \<lparr>prog_id = 0, prog_name = db_Name p, prog_handle = db_Handle p, prog_url = db_URL p,
              prog_domain = Some (db_Domain p), prog_offers_bounties = Some (db_OffersBounties p),
              prog_type = Some (ProgramType p), prog_last_scanned = program_now io\<rparr> st)
      | NoSuchColumn \<Rightarrow>
          (if exec_old_schema_fails io then (Some StoreError, st)
           else (None, replace_program
             \<lparr>prog_id = 0, prog_name = db_Name p, prog_handle = db_Handle p, prog_url = db_URL p,
              prog_domain = None, prog_offers_bounties = None, prog_type = None,
              prog_last_scanned = program_now io\<rparr> st))
      | ExecFails \<Rightarrow> (Some StoreError, st))"

definition upper_byte :: "char \<Rightarrow> char" where
  "upper_byte c =
     (if of_char (CHR ''a'') \<le> (of_char c :: nat) \<and> (of_char c :: nat) \<le> of_char (CHR ''z'')
      then char_of ((of_char c :: nat) - 32) else c)"

fun ToUpper :: "string \<Rightarrow> string" where
  \<comment> \<open>\<open>strings.ToUpper\<close> as far as ASCII bytes go: ASCII letters are mapped, the two
      runes whose upper case is an ASCII letter (U+0131 and U+017F) are mapped, every
      other byte of a rune outside ASCII is kept as it is (its upper case has no ASCII
      byte either).\<close>
  "ToUpper [] = []"
| "ToUpper [a] = [upper_byte a]"
| "ToUpper (a # b # s) =
     (if a = CHR 0xC4 \<and> b = CHR 0xB1 then CHR ''I'' # ToUpper s
      else if a = CHR 0xC5 \<and> b = CHR 0xBF then CHR ''S'' # ToUpper s
      else upper_byte a # ToUpper (b # s))"

fun Contains :: "string \<Rightarrow> string \<Rightarrow> bool" where
  "Contains [] substr = (substr = [])"
| "Contains (c # s) substr = (prefix substr (c # s) \<or> Contains s substr)"

definition programType_of :: "h1_Program \<Rightarrow> string" where
  "programType_of p =
     (let submissionState = ToUpper (SubmissionState p)
      in if Contains submissionState ''RDP'' \<or> Contains submissionState ''REMOTE'' then ''RDP''
         else if Contains submissionState ''VDP'' \<or> Contains submissionState ''VULNERABILITY''
           then ''VDP''
         else if OffersBounties p then ''RDP''
         else ''VDP'')"

record program_world =
  save_program_io :: program_io
  scope :: "error + string list"
  discovery :: discovery_world
  discovery_sched :: "nat list"
  http :: http_world
  health_workers :: int
  probe_sched :: "nat list"
  save_domain_io :: "nat \<Rightarrow> store_io"
  time_now :: "nat \<Rightarrow> time \<times> time"

fun clean_unique :: "string list \<Rightarrow> (string \<Rightarrow> bool) \<Rightarrow> string list \<Rightarrow> string list" where
  \<comment> \<open>The loop of \<open>processProgram\<close> over \<open>allDomains\<close>, with its map \<open>uniqueDomains\<close> and its
      slice \<open>finalDomains\<close>.\<close>
  "clean_unique [] uniqueDomains final = final"
| "clean_unique (d # rest) uniqueDomains final =
     (let cleaned = cleanDomain d
      in if cleaned \<noteq> [] \<and> \<not> uniqueDomains cleaned
         then clean_unique rest (uniqueDomains(cleaned := True)) (final @ [cleaned])
         else clean_unique rest uniqueDomains final)"

definition finalDomains :: "string list \<Rightarrow> string list \<Rightarrow> string list" where
  "finalDomains scopeDomains discoveredDomains =
     clean_unique (scopeDomains @ discoveredDomains) (\<lambda>d. False) []"

fun save_results :: "program_world \<Rightarrow> string \<Rightarrow> nat \<Rightarrow> CheckResult list \<Rightarrow> state \<Rightarrow> state" where
  \<comment> \<open>The loop over \<open>healthResults\<close>; \<open>i\<close> counts the results saved so far.\<close>
  "save_results w h i [] st = st"
| "save_results w h i (result # results) st =
     (let d = \<lparr>ID = 0, Domain = cr_Domain result, Program = h, Status = cr_Status result,
               DiscoveredAt = fst (time_now w i), LastChecked = snd (time_now w i),
               IsNew = False\<rparr>
      in case SaveDomain (save_domain_io w i) d (store st) of
           (None, db') \<Rightarrow> save_results w h (Suc i) results (st\<lparr>store := db'\<rparr>)
         | (Some err, db') \<Rightarrow>
             save_results w h (Suc i) results
               (say (ErrorSavingDomain (cr_Domain result) err) (st\<lparr>store := db'\<rparr>)))"

definition discover_and_record ::
  "program_world \<Rightarrow> h1_Program \<Rightarrow> string list \<Rightarrow> state \<Rightarrow> error option \<times> state" where
  \<comment> \<open>\<open>processProgram\<close> from the discovery of subdomains to its end, for the scope domains
      it has settled on.\<close>
  "discover_and_record w p scopeDomains st0 =
     (let h = Handle p;
          st1 = say (DiscoveringSubdomains (length scopeDomains) h) st0;
          found = DiscoverDomains (discovery w) (discovery_sched w) scopeDomains;
          discoveredDomains = (case snd found of Some err \<Rightarrow> [] | None \<Rightarrow> fst found);
          st2 = (case snd found of Some err \<Rightarrow> say (DiscoveryFailed h err) st1 | None \<Rightarrow> st1);
          st3 = (if length discoveredDomains > 0
                 then say (DiscoveredSubdomains (length discoveredDomains) h) st2
                 else say (NoSubdomainsDiscovered h (length scopeDomains)) st2);
          final = finalDomains scopeDomains discoveredDomains;
          st4 = say (CheckingHealth (length final) h) st3;
          healthResults = CheckDomains (http w) (health_workers w) (probe_sched w) final;
          st5 = save_results w h 0 healthResults st4
      in (None, say (CompletedProgram h) st5))"

definition processProgram :: "program_world \<Rightarrow> h1_Program \<Rightarrow> state \<Rightarrow> error option \<times> state" where
  "processProgram w p st0 =
     (let st1 = say (ProcessingProgram (Name p) (Handle p)) st0;
          dbProgram = \<lparr>db_Name = Name p, db_Handle = Handle p, db_URL = URL p,
                       db_Domain = Attr_Domain p, db_OffersBounties = OffersBounties p,
                       ProgramType = programType_of p\<rparr>
      in case SaveProgram (save_program_io w) dbProgram st1 of
           (Some err, st2) \<Rightarrow> (Some err, say (ErrorSavingProgram (Handle p) err) st2)
         | (None, st2) \<Rightarrow>
             (let scopeDomains = (case scope w of Inl err \<Rightarrow> [] | Inr found \<Rightarrow> found);
                  st3 = (case scope w of
                           Inl err \<Rightarrow> say (ErrorGettingScope (Handle p) err) st2
                         | Inr found \<Rightarrow> st2)
              in if length scopeDomains = 0
                 then (if Attr_Domain p \<noteq> []
                       then discover_and_record w p [Attr_Domain p]
                              (say (UsingProgramDomain (Handle p) (Attr_Domain p)) st3)
                       else (None, say (NoDomainsFound (Handle p)) st3))
                 else discover_and_record w p scopeDomains
                        (say (FoundScopeDomains (length scopeDomains) (Handle p)) st3)))"

text \<open>
  \<open>RunScan\<close> starts one goroutine per program and waits for all of them; it drops what
  \<open>processProgram\<close> returns.  The goroutines share the store and the log, so their
  statements and log lines interleave in an order that the Go scheduler decides.  To
  follow that, \<open>processProgram\<close> is cut into its atomic actions on the shared state: one
  log line, or one statement of \<open>SaveDomain\<close> (its query, its insert into
  \<open>status_changes\<close>, its insert or update of the domain, and the log line for its
  error).  What \<open>processProgram\<close> reads from outside (scope, discovery, probes) does not
  touch the shared state and is computed when the actions are listed.
\<close>

datatype saving = ToQuery | ToWrite lookup | ToUpdate int | ToReturn "error option"

datatype action = Log event | Save store_io Domain saving

fun step_action :: "action \<Rightarrow> state \<Rightarrow> action option \<times> state" where
  \<comment> \<open>One atomic action on the shared state, and what is left of it.\<close>
  "step_action (Log e) st = (None, say e st)"
| "step_action (Save io d ToQuery) st =
     (Some (Save io d (ToWrite (query_domain io d (store st)))), st)"
| "step_action (Save io d (ToWrite ErrNoRows)) st =
     (case insert_domain io d (store st) of
        (err, db') \<Rightarrow> (Some (Save io d (ToReturn err)), st\<lparr>store := db'\<rparr>))"
| "step_action (Save io d (ToWrite QueryError)) st =
     (Some (Save io d (ToReturn (Some StoreError))), st)"
| "step_action (Save io d (ToWrite (Row existingID existingIsNew oldStatus))) st =
     (if oldStatus \<noteq> Status d
      then (Some (Save io d (ToUpdate existingID)),
            st\<lparr>store := snd (insert_status_change io d oldStatus (store st))\<rparr>)
      else (case update_domain io d existingID (store st) of
              (err, db') \<Rightarrow> (Some (Save io d (ToReturn err)), st\<lparr>store := db'\<rparr>)))"
| "step_action (Save io d (ToUpdate existingID)) st =
     (case update_domain io d existingID (store st) of
        (err, db') \<Rightarrow> (Some (Save io d (ToReturn err)), st\<lparr>store := db'\<rparr>))"
| "step_action (Save io d (ToReturn None)) st = (None, st)"
| "step_action (Save io d (ToReturn (Some err))) st =
     (None, say (ErrorSavingDomain (Domain d) err) st)"

fun save_actions :: "program_world \<Rightarrow> string \<Rightarrow> nat \<Rightarrow> CheckResult list \<Rightarrow> action list" where
  \<comment> \<open>The loop over \<open>healthResults\<close>, as actions.\<close>
  "save_actions w h i [] = []"
| "save_actions w h i (result # results) =
     Save (save_domain_io w i)
          \<lparr>ID = 0, Domain = cr_Domain result, Program = h, Status = cr_Status result,
           DiscoveredAt = fst (time_now w i), LastChecked = snd (time_now w i),
           IsNew = False\<rparr>
          ToQuery
     # save_actions w h (Suc i) results"

definition discover_and_record_actions ::
  "program_world \<Rightarrow> h1_Program \<Rightarrow> string list \<Rightarrow> action list" where
  \<comment> \<open>\<open>processProgram\<close> from the discovery of subdomains to its end, as actions.\<close>
  "discover_and_record_actions w p scopeDomains =
     (let h = Handle p;
          found = DiscoverDomains (discovery w) (discovery_sched w) scopeDomains;
          discoveredDomains = (case snd found of Some err \<Rightarrow> [] | None \<Rightarrow> fst found);
          final = finalDomains scopeDomains discoveredDomains;
          healthResults = CheckDomains (http w) (health_workers w) (probe_sched w) final
      in [Log (DiscoveringSubdomains (length scopeDomains) h)] @
         (case snd found of Some err \<Rightarrow> [Log (DiscoveryFailed h err)] | None \<Rightarrow> []) @
         [Log (if length discoveredDomains > 0
               then DiscoveredSubdomains (length discoveredDomains) h
               else NoSubdomainsDiscovered h (length scopeDomains)),
          Log (CheckingHealth (length final) h)] @
         save_actions w h 0 healthResults @
         [Log (CompletedProgram h)])"

definition after_SaveProgram :: "program_world \<Rightarrow> h1_Program \<Rightarrow> action list" where
  \<comment> \<open>\<open>processProgram\<close> after a successful \<open>SaveProgram\<close>, as actions.\<close>
  "after_SaveProgram w p =
     (let scopeDomains = (case scope w of Inl err \<Rightarrow> [] | Inr found \<Rightarrow> found)
      in (case scope w of Inl err \<Rightarrow> [Log (ErrorGettingScope (Handle p) err)] | Inr found \<Rightarrow> []) @
         (if length scopeDomains = 0
          then (if Attr_Domain p \<noteq> []
                then Log (UsingProgramDomain (Handle p) (Attr_Domain p)) #
                     discover_and_record_actions w p [Attr_Domain p]
                else [Log (NoDomainsFound (Handle p))])
          else Log (FoundScopeDomains (length scopeDomains) (Handle p)) #
               discover_and_record_actions w p scopeDomains))"

text \<open>
  A goroutine is a program, the world it meets, and where it stands: before its first
  log line, before \<open>SaveProgram\<close> (one step: its first insert has no effect when it
  fails), or with a list of actions left; with none left it is done.
\<close>

datatype pc = Start | Upsert | Pending "action list"

type_synonym goroutine = "program_world \<times> h1_Program \<times> pc"

fun step_goroutine :: "goroutine \<Rightarrow> state \<Rightarrow> goroutine \<times> state" where
  "step_goroutine (w, p, Start) st =
     ((w, p, Upsert), say (ProcessingProgram (Name p) (Handle p)) st)"
| "step_goroutine (w, p, Upsert) st =
     (case SaveProgram (save_program_io w)
             \<lparr>db_Name = Name p, db_Handle = Handle p, db_URL = URL p,
              db_Domain = Attr_Domain p, db_OffersBounties = OffersBounties p,
              ProgramType = programType_of p\<rparr> st of
        (Some err, st') \<Rightarrow> ((w, p, Pending [Log (ErrorSavingProgram (Handle p) err)]), st')
      | (None, st') \<Rightarrow> ((w, p, Pending (after_SaveProgram w p)), st'))"
| "step_goroutine (w, p, Pending []) st = ((w, p, Pending []), st)"
| "step_goroutine (w, p, Pending (a # rest)) st =
     (case step_action a st of
        (None, st') \<Rightarrow> ((w, p, Pending rest), st')
      | (Some a', st') \<Rightarrow> ((w, p, Pending (a' # rest)), st'))"

text \<open>
  A schedule names, step by step, the goroutine that moves next.  Every order of the
  steps is a schedule: the semaphore that lets at most five goroutines work at a time
  only rules some of them out, so what holds for every schedule holds for the schedules
  it allows.  \<open>wg.Wait\<close> returns when every goroutine is done: after the steps of the
  given schedule, each goroutine that is not yet done is run to its end.
\<close>

fun run :: "nat list \<Rightarrow> goroutine list \<times> state \<Rightarrow> goroutine list \<times> state" where
  "run [] c = c"
| "run (i # sched) (gs, st) =
     (if i < length gs
      then (case step_goroutine (gs ! i) st of (g', st') \<Rightarrow> run sched (gs[i := g'], st'))
      else run sched (gs, st))"

fun action_work :: "action \<Rightarrow> nat" where
  \<comment> \<open>A bound on the steps an action still takes.\<close>
  "action_work (Log e) = 1"
| "action_work (Save io d ToQuery) = 4"
| "action_work (Save io d (ToWrite found)) = 3"
| "action_work (Save io d (ToUpdate existingID)) = 2"
| "action_work (Save io d (ToReturn err)) = 1"

fun work :: "goroutine \<Rightarrow> nat" where
  \<comment> \<open>A bound on the steps a goroutine still takes.\<close>
  "work (w, p, Start) = 3 + sum_list (map action_work (after_SaveProgram w p))"
| "work (w, p, Upsert) = 2 + sum_list (map action_work (after_SaveProgram w p))"
| "work (w, p, Pending as) = sum_list (map action_work as)"

definition wait_schedule :: "goroutine list \<Rightarrow> nat list" where
  \<comment> \<open>Every goroutine in turn, for as many steps as it may still take.\<close>
  "wait_schedule gs = concat (map (\<lambda>i. replicate (work (gs ! i)) i) [0..<length gs])"

record world =
  listing :: "error + h1_Program list"
  program_worlds :: "nat \<Rightarrow> program_world"
  goroutine_sched :: "nat list"

definition RunScan :: "world \<Rightarrow> state \<Rightarrow> error option \<times> state" where
  "RunScan w st0 =
     (let st1 = say FetchingPrograms (say StartingScan st0)
      in case listing w of
           Inl err \<Rightarrow> (Some (FailedToFetchPrograms err), st1)
         | Inr ps \<Rightarrow>
             (let goroutines = map (\<lambda>i. (program_worlds w i, ps ! i, Start)) [0..<length ps];
                  c1 = run (goroutine_sched w) (goroutines, say (FoundPrograms (length ps)) st1);
                  c2 = run (wait_schedule (fst c1)) c1
              in (None, say ScanCompleted (snd c2))))"

fun started :: "event list \<Rightarrow> string list" where
  \<comment> \<open>The handles of the programs whose processing has begun, in order.\<close>
  "started [] = []"
| "started (ProcessingProgram n h # es) = h # started es"
| "started (e # es) = started es"

fun completed :: "event list \<Rightarrow> string list" where
  \<comment> \<open>The handles of the programs whose processing has reached its last line.\<close>
  "completed [] = []"
| "completed (CompletedProgram h # es) = h # completed es"
| "completed (e # es) = completed es"

text \<open>
  What the processing of one program leaves behind, read off \<open>processProgram\<close> line by
  line, for stating that a program has been processed: its log lines among the new
  lines of the log, its row in \<open>programs\<close>, and a record in \<open>domains\<close> for the normal form
  of every base domain and every discovered domain whose lookup and insert did not
  fail.
\<close>

definition upsert_fails :: "program_io \<Rightarrow> bool" where
  \<comment> \<open>\<open>SaveProgram\<close> returns an error.\<close>
  "upsert_fails io =
     (exec_new_schema io = ExecFails \<or> (exec_new_schema io = NoSuchColumn \<and> exec_old_schema_fails io))"

definition base_domains :: "program_world \<Rightarrow> h1_Program \<Rightarrow> string list" where
  \<comment> \<open>The scope domains, or else the program's own domain, or else nothing.\<close>
  "base_domains w p =
     (case scope w of
        Inr found \<Rightarrow> if found \<noteq> [] then found
                     else if Attr_Domain p \<noteq> [] then [Attr_Domain p] else []
      | Inl err \<Rightarrow> if Attr_Domain p \<noteq> [] then [Attr_Domain p] else [])"

definition processed :: "program_world \<Rightarrow> h1_Program \<Rightarrow> event list \<Rightarrow> state \<Rightarrow> bool" where
  "processed w p new st =
     (let h = Handle p;
          base = base_domains w p;
          found = DiscoverDomains (discovery w) (discovery_sched w) base;
          discovered = (case snd found of Some err \<Rightarrow> [] | None \<Rightarrow> fst found);
          final = finalDomains base discovered
      in ProcessingProgram (Name p) h \<in> set new \<and>
         (if upsert_fails (save_program_io w)
          then ErrorSavingProgram h StoreError \<in> set new
          else h \<in> prog_handle ` set (programs st) \<and>
               (\<forall>err. scope w = Inl err \<longrightarrow> ErrorGettingScope h err \<in> set new) \<and>
               (if base = [] then NoDomainsFound h \<in> set new
                else CheckingHealth (length final) h \<in> set new \<and>
                     CompletedProgram h \<in> set new \<and>
                     (\<forall>d \<in> set base \<union> set discovered. cleanDomain d \<noteq> [] \<longrightarrow>
                        (\<exists>j < length final. final ! j = cleanDomain d \<and>
                           (\<not> query_fails (save_domain_io w j) \<and>
                            \<not> insert_fails (save_domain_io w j) \<longrightarrow>
                              (cleanDomain d, h) \<in> key_of ` set (domains (store st))))))))"

text \<open>
  For the proofs about schedules: the effects a goroutine still owes, which stay once
  they are there; the goroutines that have started; and the actions of one goroutine
  run to their end without any other goroutine in between.
\<close>

datatype effect = Logged event | Stored "string \<times> string" | Listed string

fun holds :: "nat \<Rightarrow> effect \<Rightarrow> state \<Rightarrow> bool" where
  \<comment> \<open>The effect is there; \<open>n\<close> is the length of the log before the scan.\<close>
  "holds n (Logged e) st = (e \<in> set (drop n (logged st)))"
| "holds n (Stored k) st = (k \<in> key_of ` set (domains (store st)))"
| "holds n (Listed h) st = (h \<in> prog_handle ` set (programs st))"

fun action_owed :: "action \<Rightarrow> effect set" where
  "action_owed (Log e) = {Logged e}"
| "action_owed (Save io d ToQuery) =
     (if \<not> query_fails io \<and> \<not> insert_fails io then {Stored (Domain d, Program d)} else {})"
| "action_owed (Save io d (ToWrite found)) =
     (if found = ErrNoRows \<and> \<not> insert_fails io then {Stored (Domain d, Program d)} else {})"
| "action_owed (Save io d (ToUpdate existingID)) = {}"
| "action_owed (Save io d (ToReturn err)) = {}"

definition owed_by_upsert :: "program_world \<Rightarrow> h1_Program \<Rightarrow> effect set" where
  "owed_by_upsert w p =
     (if upsert_fails (save_program_io w)
      then {Logged (ErrorSavingProgram (Handle p) StoreError)}
      else insert (Listed (Handle p)) (\<Union> (action_owed ` set (after_SaveProgram w p))))"

fun owed :: "goroutine \<Rightarrow> effect set" where
  "owed (w, p, Start) =
     insert (Logged (ProcessingProgram (Name p) (Handle p))) (owed_by_upsert w p)"
| "owed (w, p, Upsert) = owed_by_upsert w p"
| "owed (w, p, Pending as) = \<Union> (action_owed ` set as)"

fun action_quiet :: "action \<Rightarrow> bool" where
  \<comment> \<open>The action does not log the start of a program.\<close>
  "action_quiet (Log e) = (started [e] = [])"
| "action_quiet (Save io d s) = True"

fun quiet :: "goroutine \<Rightarrow> bool" where
  "quiet (w, p, Pending as) = (\<forall>a \<in> set as. action_quiet a)"
| "quiet (w, p, c) = True"

definition pc_of :: "goroutine \<Rightarrow> pc" where
  "pc_of g = snd (snd g)"

definition program_of :: "goroutine \<Rightarrow> h1_Program" where
  "program_of g = fst (snd g)"

definition started_set :: "goroutine list \<Rightarrow> string multiset" where
  "started_set gs =
     image_mset (\<lambda>g. Handle (program_of g)) (filter_mset (\<lambda>g. pc_of g \<noteq> Start) (mset gs))"

definition scan_inv ::
  "nat \<Rightarrow> event list \<Rightarrow> goroutine list \<Rightarrow> goroutine list \<times> state \<Rightarrow> bool" where
  "scan_inv n l0 gs0 c =
     (length (fst c) = length gs0 \<and> n \<le> length (logged (snd c)) \<and> take n (logged (snd c)) = l0 \<and>
      (\<forall>i < length gs0.
         fst (fst c ! i) = fst (gs0 ! i) \<and> program_of (fst c ! i) = program_of (gs0 ! i) \<and>
         quiet (fst c ! i) \<and>
         (\<forall>f \<in> owed (gs0 ! i). holds n f (snd c) \<or> f \<in> owed (fst c ! i))) \<and>
      mset (started (drop n (logged (snd c)))) = started_set (fst c))"

function do_all :: "action list \<Rightarrow> state \<Rightarrow> state" where
  "do_all [] st = st"
| "do_all (a # rest) st =
     (case step_action a st of
        (None, st') \<Rightarrow> do_all rest st'
      | (Some a', st') \<Rightarrow> do_all (a' # rest) st')"
  by pat_completeness auto
termination
proof (relation "measure (\<lambda>(as, st). sum_list (map action_work as))")
  show "wf (measure (\<lambda>(as, st). sum_list (map action_work as)))" by simp
next
  fix a :: action and rest :: "action list" and st st' :: state and x :: "action option"
  assume "(x, st') = step_action a st" "x = None"
  have "0 < action_work a" by (induction a rule: action_work.induct) simp_all
  then show "((rest, st'), (a # rest, st)) \<in> measure (\<lambda>(as, st). sum_list (map action_work as))"
    by simp
next
  fix a a' :: action and rest :: "action list" and st st' :: state and x :: "action option"
  assume "(x, st') = step_action a st" "x = Some a'"
  then have s: "fst (step_action a st) = Some a'" by (metis fst_conv)
  have "action_work a' < action_work a"
  proof (cases a)
    case (Log e)
    with s show ?thesis by simp
  next
    case (Save io d sv)
    show ?thesis
    proof (cases sv)
      case ToQuery
      with Save s show ?thesis by auto
    next
      case (ToWrite found)
      with Save s show ?thesis by (cases found) (auto split: prod.splits if_splits)
    next
      case (ToUpdate existingID)
      with Save s show ?thesis by (auto split: prod.splits)
    next
      case (ToReturn err)
      with Save s show ?thesis by (cases err) simp_all
    qed
  qed
  then show "((a' # rest, st'), (a # rest, st)) \<in> measure (\<lambda>(as, st). sum_list (map action_work as))"
    by simp
qed

text \<open>
  A small world for concrete runs: two programs, the registry refuses the scope of both,
  \<open>subfinder\<close> is not installed, every host answers 200, and the store works; whether the
  insert into \<open>programs\<close> works is left open.  In the scan the insert fails for the first
  program, and the goroutine of the second program moves first.
\<close>

definition example_state :: state where
  "example_state = \<lparr>store = empty_DB, programs = [], programs_seq = 0, logged = []\<rparr>"

definition example_program_world :: "exec_outcome \<Rightarrow> program_world" where
  "example_program_world outcome =
     \<lparr>save_program_io =
        \<lparr>exec_new_schema = outcome, exec_old_schema_fails = False, program_now = 0\<rparr>,
      scope = Inl RegistryError,
      discovery =
        \<lparr>subfinder_in_PATH = False,
         run_subfinder = (\<lambda>d. \<lparr>stdout = [], run_err = True, deadline_exceeded = False\<rparr>)\<rparr>,
      discovery_sched = [],
      http = \<lparr>new_request = (\<lambda>url. True), client_do = (\<lambda>url. Inr 200)\<rparr>,
      health_workers = 50,
      probe_sched = [0],
      save_domain_io =
        (\<lambda>i. \<lparr>query_fails = False, insert_fails = False, change_fails = False,
               update_fails = False, now = 0\<rparr>),
      time_now = (\<lambda>i. (0, 0))\<rparr>"

definition example_programs :: "h1_Program list" where
  "example_programs =
     [\<lparr>Name = ''Acme'', Handle = ''acme'', URL = ''https://hackerone.com/acme'',
       Attr_Domain = ''acme.example'', OffersBounties = True, SubmissionState = ''open''\<rparr>,
      \<lparr>Name = ''Globex'', Handle = ''globex'', URL = ''https://hackerone.com/globex'',
       Attr_Domain = ''https://*.globex.example/'', OffersBounties = False, SubmissionState = ''open''\<rparr>]"

definition example_world :: world where
  "example_world =
     \<lparr>listing = Inr example_programs,
      program_worlds = (\<lambda>i. example_program_world (if i = 0 then ExecFails else ExecOK)),
      goroutine_sched = [1, 0, 1]\<rparr>"

section \<open>Properties of the string functions\<close>

declare TrimLeftSpace.simps [simp del] TrimRightSpace.simps [simp del]

lemma index_from_eq:
  "index_from c s i = (if c \<in> set s then int (i + length (takeWhile (\<lambda>x. x \<noteq> c) s)) else - 1)"
  by (induction s arbitrary: i) auto

lemma takeWhile_absent: "c \<notin> set s \<Longrightarrow> takeWhile (\<lambda>x. x \<noteq> c) s = s"
  by (induction s) auto

lemma Index_cut:
  "(let idx = Index s c in if idx \<noteq> - 1 then take (nat idx) s else s) = takeWhile (\<lambda>x. x \<noteq> c) s"
proof (cases "c \<in> set s")
  case True
  then show ?thesis
    by (simp add: Index_def index_from_eq Let_def takeWhile_eq_take[symmetric])
next
  case False
  then show ?thesis by (simp add: Index_def index_from_eq Let_def takeWhile_absent)
qed

lemma space_runes_nonempty: "e \<in> set space_runes \<Longrightarrow> e \<noteq> []"
  by (auto simp: space_runes_def)

lemma leading_space_0_iff: "leading_space s = 0 \<longleftrightarrow> (\<forall>e \<in> set space_runes. \<not> prefix e s)"
proof (cases "find (\<lambda>e. prefix e s) space_runes")
  case None
  then have "leading_space s = 0" by (simp add: leading_space_def)
  moreover from None have "\<forall>e \<in> set space_runes. \<not> prefix e s" by (simp add: find_None_iff)
  ultimately show ?thesis by simp
next
  case (Some e)
  then have "e \<in> set space_runes" "prefix e s" by (auto simp: find_Some_iff)
  with Some show ?thesis using space_runes_nonempty[of e] by (auto simp: leading_space_def)
qed

lemma trailing_space_0_iff: "trailing_space s = 0 \<longleftrightarrow> (\<forall>e \<in> set space_runes. \<not> suffix e s)"
proof (cases "find (\<lambda>e. suffix e s) space_runes")
  case None
  then have "trailing_space s = 0" by (simp add: trailing_space_def)
  moreover from None have "\<forall>e \<in> set space_runes. \<not> suffix e s" by (simp add: find_None_iff)
  ultimately show ?thesis by simp
next
  case (Some e)
  then have "e \<in> set space_runes" "suffix e s" by (auto simp: find_Some_iff)
  with Some show ?thesis using space_runes_nonempty[of e] by (auto simp: trailing_space_def)
qed

lemma TrimLeftSpace_suffix: "suffix (TrimLeftSpace s) s"
proof (induction s rule: TrimLeftSpace.induct)
  case (1 s)
  show ?case
  proof (cases "leading_space s = 0")
    case True
    then show ?thesis by (simp add: TrimLeftSpace.simps)
  next
    case False
    from 1[OF False] have "suffix (TrimLeftSpace (drop (leading_space s) s)) (drop (leading_space s) s)" .
    then have "suffix (TrimLeftSpace (drop (leading_space s) s)) s"
      using suffix_drop suffix_order.trans by blast
    with False show ?thesis by (subst TrimLeftSpace.simps) simp
  qed
qed

lemma TrimRightSpace_prefix: "prefix (TrimRightSpace s) s"
proof (induction s rule: TrimRightSpace.induct)
  case (1 s)
  show ?case
  proof (cases "trailing_space s = 0")
    case True
    then show ?thesis by (simp add: TrimRightSpace.simps)
  next
    case False
    from 1[OF False] have "prefix (TrimRightSpace (take (length s - trailing_space s) s)) (take (length s - trailing_space s) s)" .
    then have "prefix (TrimRightSpace (take (length s - trailing_space s) s)) s"
      using take_is_prefix prefix_order.trans by blast
    with False show ?thesis by (subst TrimRightSpace.simps) simp
  qed
qed

lemma leading_space_TrimLeftSpace: "leading_space (TrimLeftSpace s) = 0"
proof (induction s rule: TrimLeftSpace.induct)
  case (1 s)
  show ?case
  proof (cases "leading_space s = 0")
    case True
    then show ?thesis by (simp add: TrimLeftSpace.simps)
  next
    case False
    with 1 show ?thesis by (subst TrimLeftSpace.simps) simp
  qed
qed

lemma trailing_space_TrimRightSpace: "trailing_space (TrimRightSpace s) = 0"
proof (induction s rule: TrimRightSpace.induct)
  case (1 s)
  show ?case
  proof (cases "trailing_space s = 0")
    case True
    then show ?thesis by (simp add: TrimRightSpace.simps)
  next
    case False
    with 1 show ?thesis by (subst TrimRightSpace.simps) simp
  qed
qed

lemma leading_space_TrimRightSpace:
  assumes "leading_space s = 0" shows "leading_space (TrimRightSpace s) = 0"
proof -
  have "\<not> prefix e (TrimRightSpace s)" if "e \<in> set space_runes" for e
  proof
    assume "prefix e (TrimRightSpace s)"
    then have "prefix e s" using TrimRightSpace_prefix prefix_order.trans by blast
    with assms that show False by (simp add: leading_space_0_iff)
  qed
  then show ?thesis by (simp add: leading_space_0_iff)
qed

lemma TrimSpace_fixed:
  "leading_space s = 0 \<Longrightarrow> trailing_space s = 0 \<Longrightarrow> TrimSpace s = s"
  by (simp add: TrimSpace_def TrimLeftSpace.simps TrimRightSpace.simps)

lemma TrimSpace_idem: "TrimSpace (TrimSpace s) = TrimSpace s"
  by (rule TrimSpace_fixed)
     (simp_all add: TrimSpace_def leading_space_TrimRightSpace leading_space_TrimLeftSpace
        trailing_space_TrimRightSpace)

lemma set_TrimSpace: "set (TrimSpace s) \<subseteq> set s"
proof -
  have "set (TrimRightSpace (TrimLeftSpace s)) \<subseteq> set (TrimLeftSpace s)"
    using TrimRightSpace_prefix set_mono_prefix by blast
  moreover have "set (TrimLeftSpace s) \<subseteq> set s"
    using TrimLeftSpace_suffix set_mono_suffix by blast
  ultimately show ?thesis by (auto simp: TrimSpace_def)
qed

lemma length_TrimSpace: "length (TrimSpace s) \<le> length s"
proof -
  have "length (TrimRightSpace (TrimLeftSpace s)) \<le> length (TrimLeftSpace s)"
    using TrimRightSpace_prefix prefix_length_le by blast
  moreover have "length (TrimLeftSpace s) \<le> length s"
    using TrimLeftSpace_suffix suffix_length_le by blast
  ultimately show ?thesis by (simp add: TrimSpace_def)
qed

lemma cleanDomain_steps:
  "cleanDomain x =
     TrimSpace (TrimPrefix (takeWhile (\<lambda>c. c \<noteq> CHR '':'') (takeWhile (\<lambda>c. c \<noteq> CHR ''/'')
        (TrimPrefix (TrimPrefix x ''https://'') ''http://''))) ''*.'')"
  unfolding cleanDomain_def Let_def Index_cut[unfolded Let_def] ..

lemma set_TrimPrefix: "set (TrimPrefix s p) \<subseteq> set s"
  by (auto simp: TrimPrefix_def dest: in_set_dropD)

lemma cleanDomain_no_sep: "CHR ''/'' \<notin> set (cleanDomain x)" "CHR '':'' \<notin> set (cleanDomain x)"
proof -
  let ?d2 = "TrimPrefix (TrimPrefix x ''https://'') ''http://''"
  let ?d3 = "takeWhile (\<lambda>c. c \<noteq> CHR ''/'') ?d2"
  let ?d4 = "takeWhile (\<lambda>c. c \<noteq> CHR '':'') ?d3"
  have a: "set (cleanDomain x) \<subseteq> set ?d4"
    unfolding cleanDomain_steps using set_TrimSpace set_TrimPrefix by blast
  have "CHR ''/'' \<notin> set ?d3" by (auto dest: set_takeWhileD)
  then have "CHR ''/'' \<notin> set ?d4" by (auto dest: set_takeWhileD)
  with a show "CHR ''/'' \<notin> set (cleanDomain x)" by blast
  have "CHR '':'' \<notin> set ?d4" by (auto dest: set_takeWhileD)
  with a show "CHR '':'' \<notin> set (cleanDomain x)" by blast
qed

lemma TrimPrefix_noop: "c \<in> set p \<Longrightarrow> c \<notin> set s \<Longrightarrow> TrimPrefix s p = s"
  by (auto simp: TrimPrefix_def dest: set_mono_prefix)

lemma cleanDomain_again:
  "cleanDomain (cleanDomain x) = TrimSpace (TrimPrefix (cleanDomain x) ''*.'')"
proof -
  let ?r = "cleanDomain x"
  have 1: "TrimPrefix ?r ''https://'' = ?r"
    by (rule TrimPrefix_noop[of "CHR ''/''"]) (simp_all add: cleanDomain_no_sep)
  have 2: "TrimPrefix ?r ''http://'' = ?r"
    by (rule TrimPrefix_noop[of "CHR ''/''"]) (simp_all add: cleanDomain_no_sep)
  have 3: "takeWhile (\<lambda>c. c \<noteq> CHR ''/'') ?r = ?r"
    using cleanDomain_no_sep(1)[of x] by (rule takeWhile_absent)
  have 4: "takeWhile (\<lambda>c. c \<noteq> CHR '':'') ?r = ?r"
    using cleanDomain_no_sep(2)[of x] by (rule takeWhile_absent)
  show ?thesis
    by (subst cleanDomain_steps) (simp only: 1 2 3 4)
qed

lemma cleanDomain_fixed: "TrimSpace (cleanDomain x) = cleanDomain x"
  unfolding cleanDomain_steps by (rule TrimSpace_idem)

section \<open>The identity normalizer: idempotence and rule order\<close>

lemma prefix_append_drop: "prefix (a @ b) x \<longleftrightarrow> prefix a x \<and> prefix b (drop (length a) x)"
  by (auto simp: prefix_def)

lemma strip_scheme_TrimPrefix:
  assumes "\<not> prefix ''https://http://'' x"
  shows "TrimPrefix (TrimPrefix x ''https://'') ''http://'' = strip_scheme x"
proof (cases "prefix ''https://'' x")
  case True
  with assms have "\<not> prefix ''http://'' (drop (length ''https://'') x)"
    using prefix_append_drop[of "''https://''" "''http://''" x] by simp
  with True show ?thesis unfolding TrimPrefix_def strip_scheme_def by simp
next
  case False
  then show ?thesis unfolding TrimPrefix_def strip_scheme_def by simp
qed

text \<open>
  Claim C6, as amended.  \<open>cleanDomain\<close> strips one wildcard marker and trims afterwards,
  so its result can itself begin with \<open>*.\<close> (from \<open>*.*.a\<close>, or from white space
  before the marker).  Normalizing twice gives the same as normalizing once exactly when
  the normalized string does not begin with \<open>*.\<close>.
\<close>

theorem cleanDomain_idempotent_iff:
  "cleanDomain (cleanDomain x) = cleanDomain x \<longleftrightarrow> \<not> prefix ''*.'' (cleanDomain x)"
proof (cases "prefix ''*.'' (cleanDomain x)")
  case True
  then have "length (cleanDomain x) \<ge> Suc (Suc 0)" by (auto simp: prefix_def)
  moreover have "length (TrimSpace (drop (Suc (Suc 0)) (cleanDomain x))) \<le> length (cleanDomain x) - Suc (Suc 0)"
    using length_TrimSpace[of "drop (Suc (Suc 0)) (cleanDomain x)"] by simp
  ultimately have "length (cleanDomain (cleanDomain x)) < length (cleanDomain x)"
    using True by (simp add: cleanDomain_again TrimPrefix_def)
  with True show ?thesis by auto
next
  case False
  then show ?thesis by (simp add: cleanDomain_again TrimPrefix_def cleanDomain_fixed)
qed

theorem cleanDomain_idempotent_iff_witness:
  "\<not> prefix ''*.'' (cleanDomain ''https://*.Example.com:8080/path'') \<and>
   cleanDomain (cleanDomain ''https://*.Example.com:8080/path'') = cleanDomain ''https://*.Example.com:8080/path''"
proof -
  have h: "\<not> prefix ''*.'' (cleanDomain ''https://*.Example.com:8080/path'')" by code_simp
  with cleanDomain_idempotent_iff[of "''https://*.Example.com:8080/path''"] show ?thesis by blast
qed

text \<open>
  Claim C6 as stated fails: \<open>*.*.a\<close> normalizes to \<open>*.a\<close>, which normalizes to \<open>a\<close>.
\<close>

theorem cleanDomain_not_idempotent_counterexample:
  "cleanDomain (cleanDomain ''*.*.a'') \<noteq> cleanDomain ''*.*.a''"
  by code_simp

text \<open>
  Claim C7, as amended.  \<open>cleanDomain\<close> applies, in this order: remove a leading
  \<open>https://\<close> and then a leading \<open>http://\<close> (both are removed from a string that begins
  \<open>https://http://\<close>); truncate at the first slash; truncate at the first colon; remove
  a leading \<open>*.\<close>; trim white space; the result is empty when nothing remains.  On every
  string that does not begin \<open>https://http://\<close> this is the normalizer of the
  specification, and the example of the specification holds.
\<close>

theorem cleanDomain_rules_in_order:
  "cleanDomain x =
     TrimSpace (strip_wildcard (truncate_at (CHR '':'') (truncate_at (CHR ''/'')
       (TrimPrefix (TrimPrefix x ''https://'') ''http://''))))
   \<and> (\<not> prefix ''https://http://'' x \<longrightarrow> cleanDomain x = normalize_spec x)
   \<and> cleanDomain ''https://*.Example.com:8080/path'' = ''Example.com''"
proof -
  have steps: "cleanDomain x =
     TrimSpace (strip_wildcard (truncate_at (CHR '':'') (truncate_at (CHR ''/'')
       (TrimPrefix (TrimPrefix x ''https://'') ''http://''))))"
    unfolding cleanDomain_steps strip_wildcard_def truncate_at_def TrimPrefix_def ..
  have "cleanDomain x = normalize_spec x" if "\<not> prefix ''https://http://'' x"
    unfolding steps normalize_spec_def strip_scheme_TrimPrefix[OF that] ..
  moreover have "cleanDomain ''https://*.Example.com:8080/path'' = ''Example.com''"
    by code_simp
  ultimately show ?thesis using steps by blast
qed

theorem cleanDomain_rules_in_order_witness:
  "\<not> prefix ''https://http://'' ''http://*.b.c:80/p'' \<and>
   cleanDomain ''http://*.b.c:80/p'' = normalize_spec ''http://*.b.c:80/p'' \<and>
   normalize_spec ''http://*.b.c:80/p'' = ''b.c''"
proof -
  have h: "\<not> prefix ''https://http://'' ''http://*.b.c:80/p''" by simp
  have v: "normalize_spec ''http://*.b.c:80/p'' = ''b.c''" by code_simp
  from h cleanDomain_rules_in_order[of "''http://*.b.c:80/p''"] v show ?thesis by blast
qed

text \<open>
  Claim C7 as stated fails on a doubled scheme: the code removes both prefixes, the
  rule "strip a leading scheme, then truncate at the first slash and colon" leaves
  \<open>http\<close>.
\<close>

theorem cleanDomain_double_scheme_counterexample:
  "cleanDomain ''https://http://a'' = ''a'' \<and> normalize_spec ''https://http://a'' = ''http''"
  by code_simp

section \<open>The store: one call of \<open>SaveDomain\<close>\<close>

lemma find_has_key_map:
  assumes "\<And>r. domain (f r) = domain r \<and> program (f r) = program r"
  shows "find (has_key k p) (map f rows) = map_option f (find (has_key k p) rows)"
  using assms by (induction rows) (auto simp: has_key_def)

lemma find_None_list_ex: "find P xs = None \<longleftrightarrow> \<not> list_ex P xs"
  by (induction xs) auto

lemma find_append_new: "find P xs = None \<Longrightarrow> find P (xs @ [x]) = (if P x then Some x else None)"
  by (induction xs) (auto split: if_splits)

lemma SaveDomain_changes:
  "status_changes (snd (SaveDomain io d db)) =
     status_changes db @
     (case stored_status (Domain d) (Program d) db of
        None \<Rightarrow> []
      | Some old \<Rightarrow>
          if \<not> query_fails io \<and> \<not> change_fails io \<and> old \<noteq> Status d
          then [\<lparr>change_id = status_changes_seq db + 1, change_domain = Domain d,
                 change_program = Program d, old_status = old, new_status = Status d,
                 changed_at = now io, notified = False, change_created_at = now io\<rparr>]
          else [])"
  by (auto simp: SaveDomain_def finish_SaveDomain_def query_domain_def stored_status_def
        insert_domain_def insert_status_change_def update_domain_def Let_def
      split: option.splits)

lemma SaveDomain_domains_cases:
  "domains (snd (SaveDomain io d db)) = domains db \<or>
   (find (has_key (Domain d) (Program d)) (domains db) = None \<and>
    (\<exists>r. domains (snd (SaveDomain io d db)) = domains db @ [r] \<and> has_key (Domain d) (Program d) r
        \<and> status r = Status d \<and> row_id r = domains_seq db + 1)) \<or>
   (\<exists>r. find (has_key (Domain d) (Program d)) (domains db) = Some r \<and>
     domains (snd (SaveDomain io d db)) =
       map (\<lambda>x. if row_id x = row_id r
                 then x\<lparr>status := Status d, last_checked := LastChecked d, is_new := False\<rparr>
                 else x) (domains db))"
  by (auto simp: SaveDomain_def finish_SaveDomain_def query_domain_def
        insert_domain_def insert_status_change_def update_domain_def Let_def has_key_def
      split: option.splits)

lemma SaveDomain_domains_seq:
  "domains_seq (snd (SaveDomain io d db)) = domains_seq db \<and> 
     (domains (snd (SaveDomain io d db)) = domains db \<or> (\<exists>r. find (has_key (Domain d) (Program d)) (domains db) = Some r)) \<or>
   domains_seq (snd (SaveDomain io d db)) = domains_seq db + 1 \<and>
     (\<exists>r. domains (snd (SaveDomain io d db)) = domains db @ [r] \<and> row_id r = domains_seq db + 1)"
  by (auto simp: SaveDomain_def finish_SaveDomain_def query_domain_def
        insert_domain_def insert_status_change_def update_domain_def Let_def
      split: option.splits)

text \<open>
  Claim C1, as amended.  A call of \<open>SaveDomain\<close> appends one record to \<open>status_changes\<close>
  if and only if its query succeeds, the store holds a record for the key whose status
  differs from the observed one, and the insert into \<open>status_changes\<close> succeeds; the
  record carries the stored status as old status, the observed one as new status, and
  \<open>notified = false\<close>.  In every other case, in particular at the first observation
  of a key and at a repeated observation of the stored status, \<open>status_changes\<close> is
  left as it was.
\<close>

theorem SaveDomain_status_change:
  "(if \<not> query_fails io \<and> \<not> change_fails io \<and>
       (\<exists>old. stored_status (Domain d) (Program d) db = Some old \<and> old \<noteq> Status d)
    then \<exists>c. status_changes (snd (SaveDomain io d db)) = status_changes db @ [c] \<and>
             change_domain c = Domain d \<and> change_program c = Program d \<and>
             stored_status (Domain d) (Program d) db = Some (old_status c) \<and>
             new_status c = Status d \<and> \<not> notified c
    else status_changes (snd (SaveDomain io d db)) = status_changes db)"
  by (auto simp: SaveDomain_changes split: option.splits)

theorem SaveDomain_status_change_witness:
  "\<exists>c. status_changes (snd (SaveDomain
       \<lparr>query_fails = False, insert_fails = False, change_fails = False, update_fails = False,
        now = 20\<rparr>
       \<lparr>ID = 0, Domain = ''a.example'', Program = ''acme'', Status = ''up'', DiscoveredAt = 20,
        LastChecked = 20, IsNew = False\<rparr>
       \<lparr>domains = [\<lparr>row_id = 1, domain = ''a.example'', program = ''acme'', status = ''down'',
                     discovered_at = 10, last_checked = 10, is_new = True, created_at = 10\<rparr>],
        domains_seq = 1, status_changes = [], status_changes_seq = 0\<rparr>)) = [c]
      \<and> old_status c = ''down'' \<and> new_status c = ''up'' \<and> \<not> notified c"
  using SaveDomain_status_change[of
       "\<lparr>query_fails = False, insert_fails = False, change_fails = False, update_fails = False,
        now = 20\<rparr>"
       "\<lparr>ID = 0, Domain = ''a.example'', Program = ''acme'', Status = ''up'', DiscoveredAt = 20,
        LastChecked = 20, IsNew = False\<rparr>"
       "\<lparr>domains = [\<lparr>row_id = 1, domain = ''a.example'', program = ''acme'', status = ''down'',
                     discovered_at = 10, last_checked = 10, is_new = True, created_at = 10\<rparr>],
        domains_seq = 1, status_changes = [], status_changes_seq = 0\<rparr>"]
  by (auto simp: stored_status_def has_key_def)

text \<open>
  Claim C1 as stated fails when the insert into \<open>status_changes\<close> fails: \<open>SaveDomain\<close>
  drops that error, updates the domain from \<open>down\<close> to \<open>up\<close>, returns no error, and no
  StatusChange exists for the transition.
\<close>

theorem SaveDomain_status_change_counterexample:
  "stored_status ''a.example'' ''acme''
       \<lparr>domains = [\<lparr>row_id = 1, domain = ''a.example'', program = ''acme'', status = ''down'',
                     discovered_at = 10, last_checked = 10, is_new = True, created_at = 10\<rparr>],
        domains_seq = 1, status_changes = [], status_changes_seq = 0\<rparr> = Some ''down''
   \<and> SaveDomain
       \<lparr>query_fails = False, insert_fails = False, change_fails = True, update_fails = False,
        now = 20\<rparr>
       \<lparr>ID = 0, Domain = ''a.example'', Program = ''acme'', Status = ''up'', DiscoveredAt = 20,
        LastChecked = 20, IsNew = False\<rparr>
       \<lparr>domains = [\<lparr>row_id = 1, domain = ''a.example'', program = ''acme'', status = ''down'',
                     discovered_at = 10, last_checked = 10, is_new = True, created_at = 10\<rparr>],
        domains_seq = 1, status_changes = [], status_changes_seq = 0\<rparr>
     = (None,
       \<lparr>domains = [\<lparr>row_id = 1, domain = ''a.example'', program = ''acme'', status = ''up'',
                     discovered_at = 10, last_checked = 20, is_new = False, created_at = 10\<rparr>],
        domains_seq = 1, status_changes = [], status_changes_seq = 0\<rparr>)"
  by (simp add: SaveDomain_def finish_SaveDomain_def query_domain_def stored_status_def
        has_key_def insert_status_change_def update_domain_def)

section \<open>The store: sequences of calls\<close>

lemma SaveDomain_distinct_keys:
  assumes "distinct (map key_of (domains db))"
  shows "distinct (map key_of (domains (snd (SaveDomain io d db))))"
  using SaveDomain_domains_cases[of io d db]
proof (elim disjE conjE exE)
  assume "domains (snd (SaveDomain io d db)) = domains db"
  with assms show ?thesis by simp
next
  fix r
  assume none: "find (has_key (Domain d) (Program d)) (domains db) = None"
    and app: "domains (snd (SaveDomain io d db)) = domains db @ [r]"
    and key: "has_key (Domain d) (Program d) r"
  from none have "\<forall>x \<in> set (domains db). \<not> has_key (Domain d) (Program d) x"
    by (simp add: find_None_iff)
  with key have "key_of r \<notin> key_of ` set (domains db)"
    by (auto simp: has_key_def key_of_def)
  with assms app show ?thesis by simp
next
  fix r
  assume upd: "domains (snd (SaveDomain io d db)) =
       map (\<lambda>x. if row_id x = row_id r
                 then x\<lparr>status := Status d, last_checked := LastChecked d, is_new := False\<rparr>
                 else x) (domains db)"
  have "map key_of (domains (snd (SaveDomain io d db))) = map key_of (domains db)"
    unfolding upd by (simp add: key_of_def comp_def)
  with assms show ?thesis by simp
qed

text \<open>
  Claim C3.  After any sequence of \<open>SaveDomain\<close> calls on the tables that \<open>createTables\<close>
  makes, whatever statements fail on the way, no two rows of \<open>domains\<close> have the same
  \<open>(domain, program)\<close> pair.
\<close>

theorem domains_key_unique:
  "distinct (map (\<lambda>r. (domain r, program r)) (domains (SaveDomains calls empty_DB)))"
proof -
  have "distinct (map key_of (domains db)) \<Longrightarrow>
        distinct (map key_of (domains (SaveDomains calls db)))" for db
  proof (induction calls arbitrary: db)
    case Nil
    then show ?case by simp
  next
    case (Cons c calls)
    obtain io d where c: "c = (io, d)" by (cases c)
    from Cons.prems have "distinct (map key_of (domains (snd (SaveDomain io d db))))"
      by (rule SaveDomain_distinct_keys)
    then show ?case unfolding c by (simp add: Cons.IH)
  qed
  from this[of empty_DB] show ?thesis
    by (simp add: empty_DB_def key_of_def[abs_def])
qed

lemma SaveDomain_ids_ok:
  assumes "ids_ok db"
  shows "ids_ok (snd (SaveDomain io d db))"
  using SaveDomain_domains_cases[of io d db]
proof (elim disjE conjE exE)
  assume same: "domains (snd (SaveDomain io d db)) = domains db"
  from SaveDomain_domains_seq[of io d db] same
  have "domains_seq db \<le> domains_seq (snd (SaveDomain io d db))" by auto
  with assms same show ?thesis by (fastforce simp: ids_ok_def)
next
  fix r
  assume none: "find (has_key (Domain d) (Program d)) (domains db) = None"
    and app: "domains (snd (SaveDomain io d db)) = domains db @ [r]"
    and rid: "row_id r = domains_seq db + 1"
  from SaveDomain_domains_seq[of io d db] app none
  have "domains_seq (snd (SaveDomain io d db)) = domains_seq db + 1" by auto
  with assms app rid show ?thesis by (fastforce simp: ids_ok_def)
next
  fix r
  assume r: "find (has_key (Domain d) (Program d)) (domains db) = Some r"
    and upd: "domains (snd (SaveDomain io d db)) =
       map (\<lambda>x. if row_id x = row_id r
                 then x\<lparr>status := Status d, last_checked := LastChecked d, is_new := False\<rparr>
                 else x) (domains db)"
  have ids: "map row_id (domains (snd (SaveDomain io d db))) = map row_id (domains db)"
    unfolding upd by (simp add: comp_def)
  have "length (domains (snd (SaveDomain io d db))) = length (domains db)"
    unfolding upd by simp
  with SaveDomain_domains_seq[of io d db]
  have "domains_seq (snd (SaveDomain io d db)) = domains_seq db" by auto
  moreover have "set (map row_id (domains (snd (SaveDomain io d db)))) = set (map row_id (domains db))"
    using ids by simp
  ultimately show ?thesis using assms ids unfolding ids_ok_def
    by (metis (no_types, lifting) image_iff list.set_map)
qed

lemma SaveDomains_ids_ok: "ids_ok db \<Longrightarrow> ids_ok (SaveDomains calls db)"
proof (induction calls arbitrary: db)
  case Nil
  then show ?case by simp
next
  case (Cons c calls)
  obtain io d where c: "c = (io, d)" by (cases c)
  from Cons.prems have "ids_ok (snd (SaveDomain io d db))" by (rule SaveDomain_ids_ok)
  then show ?case unfolding c by (simp add: Cons.IH)
qed

lemma reachable_ids_distinct: "distinct (map row_id (domains (SaveDomains calls empty_DB)))"
proof -
  have "ids_ok empty_DB" by (simp add: ids_ok_def empty_DB_def)
  then have "ids_ok (SaveDomains calls empty_DB)" by (rule SaveDomains_ids_ok)
  then show ?thesis by (simp add: ids_ok_def)
qed

text \<open>
  Claim C10.  On a store whose rows have distinct ids (the primary key; every store
  reached from the empty tables has them, \<open>reachable_ids_distinct\<close>) and that holds a row
  for the key of the call, \<open>SaveDomain\<close> adds and removes no row of \<open>domains\<close>, leaves
  \<open>id\<close>, \<open>domain\<close>, \<open>program\<close>, \<open>discovered_at\<close> and \<open>created_at\<close> of every row as they were,
  and leaves every row of another key entirely as it was.
\<close>

theorem SaveDomain_frame:
  assumes ids: "distinct (map row_id (domains db))"
    and found: "list_ex (has_key (Domain d) (Program d)) (domains db)"
  shows "length (domains (snd (SaveDomain io d db))) = length (domains db) \<and>
     (\<forall>i < length (domains db).
        row_id (domains (snd (SaveDomain io d db)) ! i) = row_id (domains db ! i) \<and>
        domain (domains (snd (SaveDomain io d db)) ! i) = domain (domains db ! i) \<and>
        program (domains (snd (SaveDomain io d db)) ! i) = program (domains db ! i) \<and>
        discovered_at (domains (snd (SaveDomain io d db)) ! i) = discovered_at (domains db ! i) \<and>
        created_at (domains (snd (SaveDomain io d db)) ! i) = created_at (domains db ! i) \<and>
        (\<not> has_key (Domain d) (Program d) (domains db ! i) \<longrightarrow>
           domains (snd (SaveDomain io d db)) ! i = domains db ! i))"
  using SaveDomain_domains_cases[of io d db]
proof (elim disjE conjE exE)
  assume "domains (snd (SaveDomain io d db)) = domains db"
  then show ?thesis by simp
next
  fix r
  assume "find (has_key (Domain d) (Program d)) (domains db) = None"
  with found show ?thesis by (simp add: find_None_list_ex)
next
  fix r
  assume r: "find (has_key (Domain d) (Program d)) (domains db) = Some r"
    and upd: "domains (snd (SaveDomain io d db)) =
       map (\<lambda>x. if row_id x = row_id r
                 then x\<lparr>status := Status d, last_checked := LastChecked d, is_new := False\<rparr>
                 else x) (domains db)"
  from r have rin: "r \<in> set (domains db)" and rkey: "has_key (Domain d) (Program d) r"
    by (auto simp: find_Some_iff)
  have other: "row_id x \<noteq> row_id r"
    if "x \<in> set (domains db)" "\<not> has_key (Domain d) (Program d) x" for x
  proof
    assume "row_id x = row_id r"
    with ids that(1) rin have "x = r" by (simp add: distinct_map inj_on_def)
    with that(2) rkey show False by simp
  qed
  show ?thesis unfolding upd using other by (auto simp: nth_mem)
qed

theorem SaveDomain_frame_witness:
  "domains (snd (SaveDomain
       \<lparr>query_fails = False, insert_fails = False, change_fails = False, update_fails = False,
        now = 20\<rparr>
       \<lparr>ID = 0, Domain = ''a.example'', Program = ''acme'', Status = ''up'', DiscoveredAt = 20,
        LastChecked = 20, IsNew = False\<rparr>
       \<lparr>domains = [\<lparr>row_id = 1, domain = ''a.example'', program = ''acme'', status = ''down'',
                     discovered_at = 10, last_checked = 10, is_new = True, created_at = 10\<rparr>,
                   \<lparr>row_id = 2, domain = ''b.example'', program = ''acme'', status = ''down'',
                     discovered_at = 11, last_checked = 11, is_new = True, created_at = 11\<rparr>],
        domains_seq = 2, status_changes = [], status_changes_seq = 0\<rparr>)) ! 1
    = \<lparr>row_id = 2, domain = ''b.example'', program = ''acme'', status = ''down'',
                     discovered_at = 11, last_checked = 11, is_new = True, created_at = 11\<rparr>"
  using SaveDomain_frame[of
       "\<lparr>domains = [\<lparr>row_id = 1, domain = ''a.example'', program = ''acme'', status = ''down'',
                     discovered_at = 10, last_checked = 10, is_new = True, created_at = 10\<rparr>,
                   \<lparr>row_id = 2, domain = ''b.example'', program = ''acme'', status = ''down'',
                     discovered_at = 11, last_checked = 11, is_new = True, created_at = 11\<rparr>],
        domains_seq = 2, status_changes = [], status_changes_seq = 0\<rparr>"
       "\<lparr>ID = 0, Domain = ''a.example'', Program = ''acme'', Status = ''up'', DiscoveredAt = 20,
        LastChecked = 20, IsNew = False\<rparr>"
       "\<lparr>query_fails = False, insert_fails = False, change_fails = False, update_fails = False,
        now = 20\<rparr>"]
  by (simp add: has_key_def)

section \<open>The store: calls that overlap\<close>

lemma transitions_step:
  "transitions prior (s # ss) = transitions prior [s] @ transitions (Some s) ss"
  by (cases prior) simp_all

lemma SaveDomain_stored_status:
  assumes "no_faults io"
  shows "stored_status (Domain d) (Program d) (snd (SaveDomain io d db)) = Some (Status d)"
proof (cases "find (has_key (Domain d) (Program d)) (domains db)")
  case None
  then have "\<not> list_ex (has_key (Domain d) (Program d)) (domains db)"
    by (simp add: find_None_list_ex)
  with None assms show ?thesis
    by (simp add: SaveDomain_def finish_SaveDomain_def query_domain_def insert_domain_def
          no_faults_def stored_status_def find_append_new has_key_def)
next
  case (Some r)
  let ?f = "\<lambda>x. if row_id x = row_id r
                 then x\<lparr>status := Status d, last_checked := LastChecked d, is_new := False\<rparr>
                 else x"
  have "find (has_key (Domain d) (Program d)) (map ?f (domains db)) =
          map_option ?f (find (has_key (Domain d) (Program d)) (domains db))"
    by (rule find_has_key_map) simp
  with Some assms show ?thesis
    by (simp add: SaveDomain_def finish_SaveDomain_def query_domain_def update_domain_def
          insert_status_change_def no_faults_def stored_status_def Let_def)
qed

lemma SaveDomain_transitions:
  assumes "no_faults io"
  shows "\<exists>new. status_changes (snd (SaveDomain io d db)) = status_changes db @ new \<and>
           map (\<lambda>c. (old_status c, new_status c)) new =
             transitions (stored_status (Domain d) (Program d) db) [Status d] \<and>
           (\<forall>c \<in> set new. change_domain c = Domain d \<and> change_program c = Program d \<and> \<not> notified c)"
  using assms by (auto simp: SaveDomain_changes no_faults_def split: option.splits)

lemma interleave_serial:
  "interleave io [True, True, False, False] (Called a, Called b, db) =
     (Returned (fst (SaveDomain io a db)),
      Returned (fst (SaveDomain io b (snd (SaveDomain io a db)))),
      SaveDomains [(io, a), (io, b)] db)"
  by (simp add: SaveDomain_def split: prod.splits)

text \<open>
  Claim C2, as amended.  \<open>SaveDomain\<close> is not atomic: it has no transaction and no lock.
  When the observations of one key run one after the other on a store whose statements
  succeed, the records appended to \<open>status_changes\<close> are exactly the status transitions
  of the sequence of observations, each once, in order.
\<close>

theorem serial_observations_record_each_transition_once:
  assumes "\<forall>(io, d) \<in> set calls. no_faults io \<and> Domain d = k \<and> Program d = p"
  shows "\<exists>new. status_changes (SaveDomains calls db) = status_changes db @ new \<and>
           map (\<lambda>c. (old_status c, new_status c)) new =
             transitions (stored_status k p db) (map (\<lambda>(io, d). Status d) calls) \<and>
           (\<forall>c \<in> set new. change_domain c = k \<and> change_program c = p \<and> \<not> notified c)"
  using assms
proof (induction calls arbitrary: db)
  case Nil
  then show ?case by simp
next
  case (Cons c calls)
  obtain io d where c: "c = (io, d)" by (cases c)
  from Cons.prems c have ok: "no_faults io" and k: "Domain d = k" and p: "Program d = p"
    by auto
  let ?db1 = "snd (SaveDomain io d db)"
  from SaveDomain_transitions[OF ok, of d db] k p obtain new1 where
    n1: "status_changes ?db1 = status_changes db @ new1"
        "map (\<lambda>c. (old_status c, new_status c)) new1 = transitions (stored_status k p db) [Status d]"
        "\<forall>c \<in> set new1. change_domain c = k \<and> change_program c = p \<and> \<not> notified c"
    by auto
  from SaveDomain_stored_status[OF ok, of d db] k p
  have st: "stored_status k p ?db1 = Some (Status d)" by simp
  from Cons.prems have "\<forall>(io, d) \<in> set calls. no_faults io \<and> Domain d = k \<and> Program d = p"
    by simp
  from Cons.IH[OF this, of ?db1] obtain new2 where
    n2: "status_changes (SaveDomains calls ?db1) = status_changes ?db1 @ new2"
        "map (\<lambda>c. (old_status c, new_status c)) new2 =
           transitions (stored_status k p ?db1) (map (\<lambda>(io, d). Status d) calls)"
        "\<forall>c \<in> set new2. change_domain c = k \<and> change_program c = p \<and> \<not> notified c"
    by auto
  have "status_changes (SaveDomains (c # calls) db) = status_changes db @ (new1 @ new2)"
    by (simp add: c n1 n2)
  moreover have "map (\<lambda>c. (old_status c, new_status c)) (new1 @ new2) =
      transitions (stored_status k p db) (map (\<lambda>(io, d). Status d) (c # calls))"
    using n1(2) n2(2) st c
    by (simp add: transitions_step[of _ "Status d" "map (\<lambda>(io, d). Status d) calls"])
  moreover have "\<forall>c \<in> set (new1 @ new2). change_domain c = k \<and> change_program c = p \<and> \<not> notified c"
    using n1(3) n2(3) by auto
  ultimately show ?case by blast
qed

theorem serial_observations_witness:
  "map (\<lambda>c. (old_status c, new_status c))
     (status_changes (SaveDomains
       [(\<lparr>query_fails = False, insert_fails = False, change_fails = False,
           update_fails = False, now = 20\<rparr>,
         \<lparr>ID = 0, Domain = ''a.example'', Program = ''acme'', Status = ''up'',
              DiscoveredAt = 20, LastChecked = 20, IsNew = False\<rparr>),
        (\<lparr>query_fails = False, insert_fails = False, change_fails = False,
           update_fails = False, now = 21\<rparr>,
         \<lparr>ID = 0, Domain = ''a.example'', Program = ''acme'', Status = ''up'',
              DiscoveredAt = 21, LastChecked = 21, IsNew = False\<rparr>)]
       \<lparr>domains = [\<lparr>row_id = 1, domain = ''a.example'', program = ''acme'', status = ''down'',
                    discovered_at = 10, last_checked = 10, is_new = True, created_at = 10\<rparr>],
        domains_seq = 1, status_changes = [], status_changes_seq = 0\<rparr>))
   = [(''down'', ''up'')]"
  using serial_observations_record_each_transition_once[of
       "[(\<lparr>query_fails = False, insert_fails = False, change_fails = False,
           update_fails = False, now = 20\<rparr>,
         \<lparr>ID = 0, Domain = ''a.example'', Program = ''acme'', Status = ''up'',
              DiscoveredAt = 20, LastChecked = 20, IsNew = False\<rparr>),
        (\<lparr>query_fails = False, insert_fails = False, change_fails = False,
           update_fails = False, now = 21\<rparr>,
         \<lparr>ID = 0, Domain = ''a.example'', Program = ''acme'', Status = ''up'',
              DiscoveredAt = 21, LastChecked = 21, IsNew = False\<rparr>)]"
       "''a.example''" "''acme''"
       "\<lparr>domains = [\<lparr>row_id = 1, domain = ''a.example'', program = ''acme'', status = ''down'',
                    discovered_at = 10, last_checked = 10, is_new = True, created_at = 10\<rparr>],
        domains_seq = 1, status_changes = [], status_changes_seq = 0\<rparr>"]
  by (auto simp: no_faults_def stored_status_def has_key_def)

text \<open>
  Claim C2 as stated fails: two calls that observe \<open>up\<close> for a domain stored as \<open>down\<close>,
  and that both query before either writes, record the one transition twice.
\<close>

theorem concurrent_observations_counterexample:
  "interleave
     \<lparr>query_fails = False, insert_fails = False, change_fails = False, update_fails = False,
      now = 20\<rparr>
     [True, False, True, False]
     (Called \<lparr>ID = 0, Domain = ''a.example'', Program = ''acme'', Status = ''up'',
              DiscoveredAt = 20, LastChecked = 20, IsNew = False\<rparr>,
      Called \<lparr>ID = 0, Domain = ''a.example'', Program = ''acme'', Status = ''up'',
              DiscoveredAt = 20, LastChecked = 20, IsNew = False\<rparr>,
      \<lparr>domains = [\<lparr>row_id = 1, domain = ''a.example'', program = ''acme'', status = ''down'',
                    discovered_at = 10, last_checked = 10, is_new = True, created_at = 10\<rparr>],
       domains_seq = 1, status_changes = [], status_changes_seq = 0\<rparr>)
   = (Returned None, Returned None,
      \<lparr>domains = [\<lparr>row_id = 1, domain = ''a.example'', program = ''acme'', status = ''up'',
                    discovered_at = 10, last_checked = 20, is_new = False, created_at = 10\<rparr>],
       domains_seq = 1,
       status_changes =
         [\<lparr>change_id = 1, change_domain = ''a.example'', change_program = ''acme'',
           old_status = ''down'', new_status = ''up'', changed_at = 20, notified = False,
           change_created_at = 20\<rparr>,
          \<lparr>change_id = 2, change_domain = ''a.example'', change_program = ''acme'',
           old_status = ''down'', new_status = ''up'', changed_at = 20, notified = False,
           change_created_at = 20\<rparr>],
       status_changes_seq = 2\<rparr>)"
  by (simp add: finish_SaveDomain_def query_domain_def
        has_key_def insert_status_change_def update_domain_def)

section \<open>The reachability prober: one domain\<close>

lemma try_urls_two:
  "try_urls w [u1, u2] =
     (if answers w u1 then (True, [u1])
      else (answers w u2, filter (new_request w) [u1, u2]))"
  by (auto simp: answers_def split: sum.splits)

text \<open>
  Claim C4, as amended.  \<open>CheckDomain\<close> requests the HTTPS URL first and requests the
  HTTP URL whenever the HTTPS attempt did not end in a response with a status code below
  500, that is after a failure and also after a response with status 500 or more.  The
  domain is UP if and only if one of these attempts receives a response with a status
  code below 500 (a 4xx response counts as UP), and DOWN in every other case: each
  attempt either fails or receives a status of 500 or more.
\<close>

theorem CheckDomain_classification:
  "cr_Domain (CheckDomain w d) = d \<and>
   (cr_Status (CheckDomain w d) = ''up'' \<longleftrightarrow>
      answers w (''https://'' @ d) \<or> answers w (''http://'' @ d)) \<and>
   (cr_Status (CheckDomain w d) = ''down'' \<longleftrightarrow>
      \<not> answers w (''https://'' @ d) \<and> \<not> answers w (''http://'' @ d)) \<and>
   requests_sent w d =
     (if answers w (''https://'' @ d) then [''https://'' @ d]
      else filter (new_request w) [''https://'' @ d, ''http://'' @ d])"
  unfolding CheckDomain_def requests_sent_def Let_def try_urls_two by simp

theorem CheckDomain_classification_witness:
  "cr_Status (CheckDomain
      \<lparr>new_request = (\<lambda>url. True),
       client_do = (\<lambda>url. if url = ''http://a.example'' then Inr 404 else Inl TransportError)\<rparr>
      ''a.example'') = ''up''"
  using CheckDomain_classification[of
      "\<lparr>new_request = (\<lambda>url. True),
       client_do = (\<lambda>url. if url = ''http://a.example'' then Inr 404 else Inl TransportError)\<rparr>"
      "''a.example''"]
  by (simp add: answers_def)

text \<open>
  Claim C4 as stated fails where it says that DOWN is recorded only if both attempts
  fail to produce a response: when both requests are answered with status 503, both
  attempts produce a response and the domain is recorded DOWN.
\<close>

theorem CheckDomain_counterexample:
  "responds \<lparr>new_request = (\<lambda>url. True), client_do = (\<lambda>url. Inr 503)\<rparr> ''https://a.example'' \<and>
   responds \<lparr>new_request = (\<lambda>url. True), client_do = (\<lambda>url. Inr 503)\<rparr> ''http://a.example'' \<and>
   CheckDomain \<lparr>new_request = (\<lambda>url. True), client_do = (\<lambda>url. Inr 503)\<rparr> ''a.example''
     = \<lparr>cr_Domain = ''a.example'', cr_Status = ''down'', cr_Error = Some DomainNotReachable\<rparr> \<and>
   requests_sent \<lparr>new_request = (\<lambda>url. True), client_do = (\<lambda>url. Inr 503)\<rparr> ''a.example''
     = [''https://a.example'', ''http://a.example'']"
  by (simp add: CheckDomain_def requests_sent_def responds_def)

section \<open>The reachability prober: a batch\<close>

lemma cr_Domain_CheckDomain: "cr_Domain (CheckDomain w d) = d"
  by (simp add: CheckDomain_def Let_def)

lemma resultMap_lookup:
  "foldl (\<lambda>m result. m(cr_Domain result \<mapsto> result)) m0 (map (CheckDomain w) ps) d =
     (if d \<in> set ps then Some (CheckDomain w d) else m0 d)"
  by (induction ps arbitrary: m0) (auto simp: cr_Domain_CheckDomain)

lemma CheckDomains_eq:
  "CheckDomains w workers sched ds =
     map (\<lambda>d. if d \<in> set (probed workers sched ds) then CheckDomain w d
               else \<lparr>cr_Domain = d, cr_Status = ''unknown'', cr_Error = None\<rparr>) ds"
  by (simp add: CheckDomains_def Let_def resultMap_lookup)

text \<open>
  Claim C5.  For every list of domains, every number of workers and every schedule
  (that is, however many probes were made before the context was done), \<open>CheckDomains\<close>
  returns one result per requested domain, in the order of the request and carrying
  that domain's name; a domain that was not probed has status \<open>unknown\<close> and no error,
  and a domain that was probed has the result of its probe.
\<close>

theorem CheckDomains_coverage:
  "length (CheckDomains w workers sched ds) = length ds \<and>
   map cr_Domain (CheckDomains w workers sched ds) = ds \<and>
   (\<forall>i < length ds.
      (ds ! i \<notin> set (probed workers sched ds) \<longrightarrow>
         CheckDomains w workers sched ds ! i =
           \<lparr>cr_Domain = ds ! i, cr_Status = ''unknown'', cr_Error = None\<rparr>) \<and>
      (ds ! i \<in> set (probed workers sched ds) \<longrightarrow>
         CheckDomains w workers sched ds ! i = CheckDomain w (ds ! i)))"
proof -
  have "map cr_Domain (CheckDomains w workers sched ds) = ds"
    unfolding CheckDomains_eq map_map by (rule map_idI) (simp add: cr_Domain_CheckDomain)
  then show ?thesis by (simp add: CheckDomains_eq)
qed

theorem CheckDomains_coverage_witness:
  "CheckDomains \<lparr>new_request = (\<lambda>url. True), client_do = (\<lambda>url. Inr 200)\<rparr> 2 [1]
      [''a.example'', ''b.example'', ''c.example'']
   = [\<lparr>cr_Domain = ''a.example'', cr_Status = ''unknown'', cr_Error = None\<rparr>,
      \<lparr>cr_Domain = ''b.example'', cr_Status = ''up'', cr_Error = None\<rparr>,
      \<lparr>cr_Domain = ''c.example'', cr_Status = ''unknown'', cr_Error = None\<rparr>]"
  using CheckDomains_coverage[of "\<lparr>new_request = (\<lambda>url. True), client_do = (\<lambda>url. Inr 200)\<rparr>"
      2 "[1]" "[''a.example'', ''b.example'', ''c.example'']"]
  by (simp add: CheckDomains_eq probed_def positions_def CheckDomain_def)

section \<open>The expansion adapter and the program processor\<close>

lemma started_append: "started (a @ b) = started a @ started b"
  by (induction a rule: started.induct) simp_all

lemma completed_append: "completed (a @ b) = completed a @ completed b"
  by (induction a rule: completed.induct) simp_all

lemma logged_say: "logged (say e st) = logged st @ [e]"
  by (simp add: say_def)

lemma store_say: "store (say e st) = store st"
  by (simp add: say_def)

lemma save_results_logged:
  "\<exists>new. logged (save_results w h i results st) = logged st @ new \<and> started new = [] \<and>
         completed new = []"
proof (induction results arbitrary: i st)
  case Nil
  then show ?case by simp
next
  case (Cons r results)
  let ?d = "\<lparr>ID = 0, Domain = cr_Domain r, Program = h, Status = cr_Status r,
               DiscoveredAt = fst (time_now w i), LastChecked = snd (time_now w i),
               IsNew = False\<rparr>"
  obtain err db' where s: "SaveDomain (save_domain_io w i) ?d (store st) = (err, db')"
    by (cases "SaveDomain (save_domain_io w i) ?d (store st)")
  show ?case
  proof (cases err)
    case None
    from Cons.IH[of "Suc i" "st\<lparr>store := db'\<rparr>"] s None show ?thesis by simp
  next
    case (Some e)
    from Cons.IH[of "Suc i" "say (ErrorSavingDomain (cr_Domain r) e) (st\<lparr>store := db'\<rparr>)"]
    obtain new where
      "logged (save_results w h (Suc i) results (say (ErrorSavingDomain (cr_Domain r) e) (st\<lparr>store := db'\<rparr>)))
         = logged st @ ErrorSavingDomain (cr_Domain r) e # new" "started new = []" "completed new = []"
      by (auto simp: logged_say)
    with s Some show ?thesis by simp
  qed
qed

lemma discover_and_record_logged:
  "fst (discover_and_record w p scopeDomains st) = None \<and>
   (\<exists>new. logged (snd (discover_and_record w p scopeDomains st)) = logged st @ new \<and>
      started new = [] \<and> completed new = [Handle p])"
proof -
  define found where "found = DiscoverDomains (discovery w) (discovery_sched w) scopeDomains"
  define discoveredDomains where
    "discoveredDomains = (case snd found of Some err \<Rightarrow> [] | None \<Rightarrow> fst found)"
  define st1 where "st1 = say (DiscoveringSubdomains (length scopeDomains) (Handle p)) st"
  define st2 where
    "st2 = (case snd found of Some err \<Rightarrow> say (DiscoveryFailed (Handle p) err) st1 | None \<Rightarrow> st1)"
  define st3 where "st3 = (if length discoveredDomains > 0
                 then say (DiscoveredSubdomains (length discoveredDomains) (Handle p)) st2
                 else say (NoSubdomainsDiscovered (Handle p) (length scopeDomains)) st2)"
  define final where "final = finalDomains scopeDomains discoveredDomains"
  define st4 where "st4 = say (CheckingHealth (length final) (Handle p)) st3"
  define st5 where "st5 = save_results w (Handle p) 0
      (CheckDomains (http w) (health_workers w) (probe_sched w) final) st4"
  have res: "discover_and_record w p scopeDomains st = (None, say (CompletedProgram (Handle p)) st5)"
    unfolding discover_and_record_def Let_def st5_def st4_def final_def st3_def st2_def st1_def
      discoveredDomains_def found_def ..
  have l2: "\<exists>n. logged st2 = logged st @ n \<and> started n = [] \<and> completed n = []"
    unfolding st2_def st1_def by (cases "snd found") (simp_all add: logged_say)
  then have l3: "\<exists>n. logged st3 = logged st @ n \<and> started n = [] \<and> completed n = []"
    unfolding st3_def by (auto simp: logged_say started_append completed_append)
  then have l4: "\<exists>n. logged st4 = logged st @ n \<and> started n = [] \<and> completed n = []"
    unfolding st4_def by (auto simp: logged_say started_append completed_append)
  from save_results_logged[of w "Handle p" 0 "CheckDomains (http w) (health_workers w) (probe_sched w) final" st4]
  obtain n5 where n5: "logged st5 = logged st4 @ n5" "started n5 = []" "completed n5 = []"
    unfolding st5_def by blast
  from l4 obtain n4 where n4: "logged st4 = logged st @ n4" "started n4 = []" "completed n4 = []"
    by blast
  have "logged (say (CompletedProgram (Handle p)) st5) = logged st @ (n4 @ n5 @ [CompletedProgram (Handle p)])"
    by (simp add: logged_say n5 n4)
  moreover have "started (n4 @ n5 @ [CompletedProgram (Handle p)]) = []"
    by (simp add: started_append n4 n5)
  moreover have "completed (n4 @ n5 @ [CompletedProgram (Handle p)]) = [Handle p]"
    by (simp add: completed_append n4 n5)
  ultimately show ?thesis unfolding res by (metis fst_conv snd_conv)
qed

lemma logged_replace_program: "logged (replace_program row st) = logged st"
  by (simp add: replace_program_def)

lemma SaveProgram_logged: "logged (snd (SaveProgram io p st)) = logged st"
  by (simp add: SaveProgram_def logged_replace_program split: exec_outcome.splits)

lemma processProgram_error:
  "fst (processProgram w p st) =
     fst (SaveProgram (save_program_io w)
            \<lparr>db_Name = Name p, db_Handle = Handle p, db_URL = URL p,
             db_Domain = Attr_Domain p, db_OffersBounties = OffersBounties p,
             ProgramType = programType_of p\<rparr>
            (say (ProcessingProgram (Name p) (Handle p)) st))"
  by (simp add: processProgram_def Let_def discover_and_record_logged
      split: prod.splits option.splits)

lemma DiscoverDomains_absent:
  "\<not> subfinder_in_PATH w \<Longrightarrow> DiscoverDomains w sched ds = ([], None)"
  by (simp add: DiscoverDomains_def)

lemma clean_unique_set:
  "set (clean_unique xs u final) \<subseteq> set final \<union> cleanDomain ` set xs"
proof (induction xs arbitrary: u final)
  case Nil
  then show ?case by simp
next
  case (Cons x xs)
  show ?case
  proof (cases "cleanDomain x \<noteq> [] \<and> \<not> u (cleanDomain x)")
    case True
    then have eq: "clean_unique (x # xs) u final =
        clean_unique xs (u(cleanDomain x := True)) (final @ [cleanDomain x])"
      by (simp add: Let_def)
    define u' where "u' = u(cleanDomain x := True)"
    from Cons.IH[of u' "final @ [cleanDomain x]"]
    have "set (clean_unique xs u' (final @ [cleanDomain x]))
        \<subseteq> set final \<union> cleanDomain ` set (x # xs)" by auto
    then show ?thesis unfolding eq u'_def .
  next
    case False
    with Cons.IH[of u final] show ?thesis by (auto simp: Let_def)
  qed
qed

lemma finalDomains_set:
  "set (finalDomains scopeDomains discoveredDomains) \<subseteq>
     cleanDomain ` (set scopeDomains \<union> set discoveredDomains)"
  using clean_unique_set[of "scopeDomains @ discoveredDomains" "\<lambda>d. False" "[]"]
  by (simp add: finalDomains_def)

lemma SaveDomain_keys:
  "key_of ` set (domains (snd (SaveDomain io d db))) \<subseteq>
     insert (Domain d, Program d) (key_of ` set (domains db))"
  using SaveDomain_domains_cases[of io d db]
proof (elim disjE conjE exE)
  assume "domains (snd (SaveDomain io d db)) = domains db"
  then show ?thesis by auto
next
  fix r
  assume "domains (snd (SaveDomain io d db)) = domains db @ [r]" "has_key (Domain d) (Program d) r"
  then show ?thesis by (auto simp: has_key_def key_of_def)
next
  fix r
  assume upd: "domains (snd (SaveDomain io d db)) =
       map (\<lambda>x. if row_id x = row_id r
                 then x\<lparr>status := Status d, last_checked := LastChecked d, is_new := False\<rparr>
                 else x) (domains db)"
  have "map key_of (domains (snd (SaveDomain io d db))) = map key_of (domains db)"
    unfolding upd by (simp add: key_of_def comp_def)
  then have "key_of ` set (domains (snd (SaveDomain io d db))) = key_of ` set (domains db)"
    by (metis list.set_map)
  then show ?thesis by auto
qed

lemma save_results_keys:
  "key_of ` set (domains (store (save_results w h i results st))) \<subseteq>
     key_of ` set (domains (store st)) \<union> (\<lambda>r. (cr_Domain r, h)) ` set results"
proof (induction results arbitrary: i st)
  case Nil
  then show ?case by simp
next
  case (Cons r results)
  let ?d = "\<lparr>ID = 0, Domain = cr_Domain r, Program = h, Status = cr_Status r,
               DiscoveredAt = fst (time_now w i), LastChecked = snd (time_now w i),
               IsNew = False\<rparr>"
  obtain err db' where s: "SaveDomain (save_domain_io w i) ?d (store st) = (err, db')"
    by (cases "SaveDomain (save_domain_io w i) ?d (store st)")
  from SaveDomain_keys[of "save_domain_io w i" ?d "store st"] s
  have k: "key_of ` set (domains db') \<subseteq> insert (cr_Domain r, h) (key_of ` set (domains (store st)))"
    by simp
  show ?case
  proof (cases err)
    case None
    from Cons.IH[of "Suc i" "st\<lparr>store := db'\<rparr>"] k s None show ?thesis by auto
  next
    case (Some e)
    from Cons.IH[of "Suc i" "say (ErrorSavingDomain (cr_Domain r) e) (st\<lparr>store := db'\<rparr>)"] k s Some
    show ?thesis by (auto simp: store_say)
  qed
qed

lemma CheckDomains_names: "map cr_Domain (CheckDomains w n sched ds) = ds"
  unfolding CheckDomains_eq map_map by (rule map_idI) (simp add: cr_Domain_CheckDomain)

lemma clean_unique_exact:
  assumes "distinct acc"
  shows "set (clean_unique xs (\<lambda>c. c \<in> set acc) acc) = set acc \<union> (cleanDomain ` set xs - {[]}) \<and>
         distinct (clean_unique xs (\<lambda>c. c \<in> set acc) acc)"
  using assms
proof (induction xs arbitrary: acc)
  case Nil
  then show ?case by simp
next
  case (Cons x xs)
  show ?case
  proof (cases "cleanDomain x \<noteq> [] \<and> cleanDomain x \<notin> set acc")
    case True
    have u': "(\<lambda>c. c \<in> set acc)(cleanDomain x := True) = (\<lambda>c. c \<in> set (acc @ [cleanDomain x]))"
      by (rule ext) simp
    have eq: "clean_unique (x # xs) (\<lambda>c. c \<in> set acc) acc =
        clean_unique xs (\<lambda>c. c \<in> set (acc @ [cleanDomain x])) (acc @ [cleanDomain x])"
      using True by (simp add: Let_def u' del: fun_upd_apply)
    have 2: "distinct (acc @ [cleanDomain x])"
      using Cons.prems True by auto
    from Cons.IH[OF 2] True show ?thesis unfolding eq by auto
  next
    case False
    then have eq: "clean_unique (x # xs) (\<lambda>c. c \<in> set acc) acc = clean_unique xs (\<lambda>c. c \<in> set acc) acc"
      by (auto simp: Let_def)
    from Cons.IH[OF Cons.prems] False show ?thesis unfolding eq by auto
  qed
qed

lemma finalDomains_exact:
  "set (finalDomains scopeDomains discoveredDomains) =
     cleanDomain ` (set scopeDomains \<union> set discoveredDomains) - {[]} \<and>
   distinct (finalDomains scopeDomains discoveredDomains)"
  using clean_unique_exact[of "[]" "scopeDomains @ discoveredDomains"]
  by (simp add: finalDomains_def)

lemma SaveDomain_keys_mono:
  "key_of ` set (domains db) \<subseteq> key_of ` set (domains (snd (SaveDomain io d db)))"
  using SaveDomain_domains_cases[of io d db]
proof (elim disjE conjE exE)
  assume "domains (snd (SaveDomain io d db)) = domains db"
  then show ?thesis by simp
next
  fix r
  assume "domains (snd (SaveDomain io d db)) = domains db @ [r]"
  then show ?thesis by auto
next
  fix r
  assume upd: "domains (snd (SaveDomain io d db)) =
       map (\<lambda>x. if row_id x = row_id r
                 then x\<lparr>status := Status d, last_checked := LastChecked d, is_new := False\<rparr>
                 else x) (domains db)"
  have "map key_of (domains (snd (SaveDomain io d db))) = map key_of (domains db)"
    unfolding upd by (simp add: key_of_def comp_def)
  then have "key_of ` set (domains (snd (SaveDomain io d db))) = key_of ` set (domains db)"
    by (metis list.set_map)
  then show ?thesis by simp
qed

lemma find_Some_key: "find (has_key k p) rows = Some r \<Longrightarrow> (k, p) \<in> key_of ` set rows"
  by (auto simp: find_Some_iff has_key_def key_of_def image_iff)

lemma SaveDomain_key_present:
  assumes "\<not> query_fails io" "\<not> insert_fails io"
  shows "(Domain d, Program d) \<in> key_of ` set (domains (snd (SaveDomain io d db)))"
proof (cases "find (has_key (Domain d) (Program d)) (domains db)")
  case None
  then have "\<not> list_ex (has_key (Domain d) (Program d)) (domains db)"
    by (simp add: find_None_list_ex)
  with None assms show ?thesis
    by (simp add: SaveDomain_def finish_SaveDomain_def query_domain_def insert_domain_def
        key_of_def)
next
  case (Some r)
  then have "(Domain d, Program d) \<in> key_of ` set (domains db)" by (rule find_Some_key)
  with SaveDomain_keys_mono[of db io d] show ?thesis by blast
qed

lemma find_append_other: "\<not> P x \<Longrightarrow> find P (xs @ [x]) = find P xs"
  by (induction xs) auto

lemma SaveDomain_other_status:
  assumes ids: "ids_ok db" and other: "(Domain d, Program d) \<noteq> (k, p)"
  shows "stored_status k p (snd (SaveDomain io d db)) = stored_status k p db"
  using SaveDomain_domains_cases[of io d db]
proof (elim disjE conjE exE)
  assume "domains (snd (SaveDomain io d db)) = domains db"
  then show ?thesis by (simp add: stored_status_def)
next
  fix r
  assume "domains (snd (SaveDomain io d db)) = domains db @ [r]" "has_key (Domain d) (Program d) r"
  with other show ?thesis
    by (simp add: stored_status_def has_key_def find_append_other)
next
  fix r
  assume r: "find (has_key (Domain d) (Program d)) (domains db) = Some r"
    and upd: "domains (snd (SaveDomain io d db)) =
       map (\<lambda>x. if row_id x = row_id r
                 then x\<lparr>status := Status d, last_checked := LastChecked d, is_new := False\<rparr>
                 else x) (domains db)"
  let ?f = "\<lambda>x. if row_id x = row_id r
                 then x\<lparr>status := Status d, last_checked := LastChecked d, is_new := False\<rparr>
                 else x"
  from r have rin: "r \<in> set (domains db)" and rkey: "has_key (Domain d) (Program d) r"
    by (auto simp: find_Some_iff)
  have fm: "find (has_key k p) (map ?f (domains db)) = map_option ?f (find (has_key k p) (domains db))"
    by (rule find_has_key_map) simp
  show ?thesis
  proof (cases "find (has_key k p) (domains db)")
    case None
    with fm show ?thesis by (simp add: stored_status_def upd)
  next
    case (Some x)
    then have xin: "x \<in> set (domains db)" and xkey: "has_key k p x"
      by (auto simp: find_Some_iff)
    from xkey rkey other have "x \<noteq> r" by (auto simp: has_key_def)
    with ids xin rin have "row_id x \<noteq> row_id r"
      by (auto simp: ids_ok_def distinct_map inj_on_def)
    with fm Some show ?thesis by (simp add: stored_status_def upd)
  qed
qed

lemma store_say_update [simp]: "store (say e st) = store st"
  by (simp add: say_def)

lemma save_results_keys_mono:
  "key_of ` set (domains (store st)) \<subseteq> key_of ` set (domains (store (save_results w h i results st)))"
proof (induction results arbitrary: i st)
  case Nil
  then show ?case by simp
next
  case (Cons r results)
  let ?d = "\<lparr>ID = 0, Domain = cr_Domain r, Program = h, Status = cr_Status r,
               DiscoveredAt = fst (time_now w i), LastChecked = snd (time_now w i),
               IsNew = False\<rparr>"
  obtain err db' where s: "SaveDomain (save_domain_io w i) ?d (store st) = (err, db')"
    by (cases "SaveDomain (save_domain_io w i) ?d (store st)")
  from SaveDomain_keys_mono[of "store st" "save_domain_io w i" ?d] s
  have k: "key_of ` set (domains (store st)) \<subseteq> key_of ` set (domains db')" by simp
  show ?case
  proof (cases err)
    case None
    from Cons.IH[of "st\<lparr>store := db'\<rparr>" "Suc i"] k s None show ?thesis by auto
  next
    case (Some e)
    from Cons.IH[of "say (ErrorSavingDomain (cr_Domain r) e) (st\<lparr>store := db'\<rparr>)" "Suc i"] k s Some
    show ?thesis by auto
  qed
qed

lemma save_results_other_status:
  assumes "ids_ok (store st)" "k \<notin> cr_Domain ` set results"
  shows "stored_status k h (store (save_results w h i results st)) = stored_status k h (store st) \<and>
         ids_ok (store (save_results w h i results st))"
  using assms
proof (induction results arbitrary: i st)
  case Nil
  then show ?case by simp
next
  case (Cons r results)
  let ?d = "\<lparr>ID = 0, Domain = cr_Domain r, Program = h, Status = cr_Status r,
               DiscoveredAt = fst (time_now w i), LastChecked = snd (time_now w i),
               IsNew = False\<rparr>"
  obtain err db' where s: "SaveDomain (save_domain_io w i) ?d (store st) = (err, db')"
    by (cases "SaveDomain (save_domain_io w i) ?d (store st)")
  from SaveDomain_ids_ok[OF Cons.prems(1), of "save_domain_io w i" ?d] s
  have ok: "ids_ok db'" by simp
  from Cons.prems(2) have ne: "(Domain ?d, Program ?d) \<noteq> (k, h)" by auto
  from SaveDomain_other_status[OF Cons.prems(1) ne, of "save_domain_io w i"] s
  have st: "stored_status k h db' = stored_status k h (store st)" by simp
  from Cons.prems(2) have notin: "k \<notin> cr_Domain ` set results" by auto
  show ?case
  proof (cases err)
    case None
    from Cons.IH[of "st\<lparr>store := db'\<rparr>" "Suc i"] ok notin st s None show ?thesis by simp
  next
    case (Some e)
    from Cons.IH[of "say (ErrorSavingDomain (cr_Domain r) e) (st\<lparr>store := db'\<rparr>)" "Suc i"]
      ok notin st s Some
    show ?thesis by simp
  qed
qed

lemma save_results_saved:
  assumes "j < length results" "distinct (map cr_Domain results)"
  shows "(\<not> query_fails (save_domain_io w (i + j)) \<and> \<not> insert_fails (save_domain_io w (i + j)) \<longrightarrow>
           (cr_Domain (results ! j), h) \<in>
             key_of ` set (domains (store (save_results w h i results st)))) \<and>
         (ids_ok (store st) \<and> no_faults (save_domain_io w (i + j)) \<longrightarrow>
           stored_status (cr_Domain (results ! j)) h (store (save_results w h i results st)) =
             Some (cr_Status (results ! j)))"
  using assms
proof (induction results arbitrary: i j st)
  case Nil
  then show ?case by simp
next
  case (Cons r results)
  let ?d = "\<lparr>ID = 0, Domain = cr_Domain r, Program = h, Status = cr_Status r,
               DiscoveredAt = fst (time_now w i), LastChecked = snd (time_now w i),
               IsNew = False\<rparr>"
  obtain err db' where s: "SaveDomain (save_domain_io w i) ?d (store st) = (err, db')"
    by (cases "SaveDomain (save_domain_io w i) ?d (store st)")
  define st' where "st' = (case err of None \<Rightarrow> st\<lparr>store := db'\<rparr>
     | Some e \<Rightarrow> say (ErrorSavingDomain (cr_Domain r) e) (st\<lparr>store := db'\<rparr>))"
  have step: "save_results w h i (r # results) st = save_results w h (Suc i) results st'"
    using s by (cases err) (simp_all add: st'_def)
  have sto: "store st' = db'" by (cases err) (simp_all add: st'_def)
  show ?case
  proof (cases j)
    case 0
    have a: "\<not> query_fails (save_domain_io w i) \<and> \<not> insert_fails (save_domain_io w i) \<Longrightarrow>
        (cr_Domain r, h) \<in> key_of ` set (domains db')"
      using SaveDomain_key_present[of "save_domain_io w i" ?d "store st"] s by simp
    have a': "\<not> query_fails (save_domain_io w i) \<and> \<not> insert_fails (save_domain_io w i) \<Longrightarrow>
        (cr_Domain r, h) \<in> key_of ` set (domains (store (save_results w h (Suc i) results st')))"
      using a save_results_keys_mono[of st' w h "Suc i" results] sto by auto
    have b: "ids_ok (store st) \<and> no_faults (save_domain_io w i) \<Longrightarrow>
        stored_status (cr_Domain r) h (store (save_results w h (Suc i) results st')) = Some (cr_Status r)"
    proof -
      assume h: "ids_ok (store st) \<and> no_faults (save_domain_io w i)"
      from SaveDomain_stored_status[of "save_domain_io w i" ?d "store st"] h s
      have 1: "stored_status (cr_Domain r) h db' = Some (cr_Status r)" by simp
      from SaveDomain_ids_ok[of "store st" "save_domain_io w i" ?d] h s
      have 2: "ids_ok (store st')" by (simp add: sto)
      from Cons.prems(2) have 3: "cr_Domain r \<notin> cr_Domain ` set results" by simp
      from save_results_other_status[OF 2 3, of h w "Suc i"] 1 sto show ?thesis by simp
    qed
    from a' b 0 show ?thesis unfolding step by simp
  next
    case (Suc j')
    from Cons.prems Suc have 1: "j' < length results" "distinct (map cr_Domain results)" by auto
    have 2: "ids_ok (store st) \<Longrightarrow> ids_ok (store st')"
      using SaveDomain_ids_ok[of "store st" "save_domain_io w i" ?d] s sto by simp
    from Cons.IH[OF 1, of "Suc i" st'] 2 Suc show ?thesis unfolding step by simp
  qed
qed

lemma store_replace_program [simp]: "store (replace_program row st) = store st"
  by (simp add: replace_program_def)

lemma store_SaveProgram [simp]: "store (snd (SaveProgram io p st)) = store st"
  by (simp add: SaveProgram_def split: exec_outcome.splits)

lemma SaveProgram_error:
  "fst (SaveProgram io p st) = (if upsert_fails io then Some StoreError else None)"
  by (auto simp: SaveProgram_def upsert_fails_def split: exec_outcome.splits)

lemma processProgram_tail:
  assumes "\<not> upsert_fails (save_program_io w)" "base_domains w p \<noteq> []"
  shows "\<exists>st3. store st3 = store st \<and>
           processProgram w p st = discover_and_record w p (base_domains w p) st3"
proof -
  let ?dbp = "\<lparr>db_Name = Name p, db_Handle = Handle p, db_URL = URL p,
              db_Domain = Attr_Domain p, db_OffersBounties = OffersBounties p,
              ProgramType = programType_of p\<rparr>"
  let ?st1 = "say (ProcessingProgram (Name p) (Handle p)) st"
  obtain err st2 where sp: "SaveProgram (save_program_io w) ?dbp ?st1 = (err, st2)"
    by (cases "SaveProgram (save_program_io w) ?dbp ?st1")
  from SaveProgram_error[of "save_program_io w" ?dbp ?st1] sp assms(1) have e: "err = None" by simp
  from store_SaveProgram[of "save_program_io w" ?dbp ?st1] sp have s2: "store st2 = store st"
    by simp
  show ?thesis
  proof (cases "scope w")
    case (Inl x)
    with assms(2) have b: "base_domains w p = [Attr_Domain p]" "Attr_Domain p \<noteq> []"
      by (auto simp: base_domains_def split: if_splits)
    let ?st3 = "say (UsingProgramDomain (Handle p) (Attr_Domain p))
                  (say (ErrorGettingScope (Handle p) x) st2)"
    have "processProgram w p st = discover_and_record w p (base_domains w p) ?st3"
      using sp e Inl b by (simp add: processProgram_def Let_def)
    moreover have "store ?st3 = store st" using s2 by simp
    ultimately show ?thesis by blast
  next
    case (Inr ds)
    show ?thesis
    proof (cases "ds = []")
      case True
      with Inr assms(2) have b: "base_domains w p = [Attr_Domain p]" "Attr_Domain p \<noteq> []"
        by (auto simp: base_domains_def split: if_splits)
      let ?st3 = "say (UsingProgramDomain (Handle p) (Attr_Domain p)) st2"
      have "processProgram w p st = discover_and_record w p (base_domains w p) ?st3"
        using sp e Inr True b by (simp add: processProgram_def Let_def)
      moreover have "store ?st3 = store st" using s2 by simp
      ultimately show ?thesis by blast
    next
      case False
      with Inr have b: "base_domains w p = ds" by (simp add: base_domains_def)
      let ?st3 = "say (FoundScopeDomains (length ds) (Handle p)) st2"
      have "processProgram w p st = discover_and_record w p (base_domains w p) ?st3"
        using sp e Inr False b by (simp add: processProgram_def Let_def)
      moreover have "store ?st3 = store st" using s2 by simp
      ultimately show ?thesis by blast
    qed
  qed
qed

text \<open>
  Claim C9.  When \<open>subfinder\<close> is not in \<open>PATH\<close>, \<open>DiscoverDomains\<close> returns the empty list
  and no error for every list of base domains (and every schedule), and \<open>processProgram\<close>
  from its discovery step on returns no error and works on the base domains alone: it
  logs that no subdomain was discovered, the domains it checks are exactly the
  non-empty normal forms of the scope domains, each once; every one of them whose
  lookup and insert do not fail has a record in the store afterwards, under the
  program's handle, and where the statements of its save succeed (on a store with
  proper ids) that record holds the status its probe gave; no other record is added;
  and the last line is reached.  \<open>processProgram\<close> as a whole returns the error of the
  insert into \<open>programs\<close> and no other, and once that insert has succeeded and there is
  a base domain, it is this run from the discovery step on.
\<close>

theorem subfinder_absent_degrades:
  assumes "\<not> subfinder_in_PATH (discovery w)"
  shows "DiscoverDomains (discovery w) sched ds = ([], None) \<and>
         fst (discover_and_record w p scopeDomains st) = None \<and>
         (\<exists>new. logged (snd (discover_and_record w p scopeDomains st)) = logged st @ new \<and>
            NoSubdomainsDiscovered (Handle p) (length scopeDomains) \<in> set new \<and>
            CheckingHealth (length (finalDomains scopeDomains [])) (Handle p) \<in> set new \<and>
            completed new = [Handle p]) \<and>
         set (finalDomains scopeDomains []) = cleanDomain ` set scopeDomains - {[]} \<and>
         distinct (finalDomains scopeDomains []) \<and>
         key_of ` set (domains (store (snd (discover_and_record w p scopeDomains st)))) \<subseteq>
           key_of ` set (domains (store st)) \<union>
           (\<lambda>d. (d, Handle p)) ` cleanDomain ` set scopeDomains \<and>
         (\<forall>j < length (finalDomains scopeDomains []).
            (\<not> query_fails (save_domain_io w j) \<and> \<not> insert_fails (save_domain_io w j) \<longrightarrow>
               (finalDomains scopeDomains [] ! j, Handle p) \<in>
                 key_of ` set (domains (store (snd (discover_and_record w p scopeDomains st))))) \<and>
            (ids_ok (store st) \<and> no_faults (save_domain_io w j) \<longrightarrow>
               stored_status (finalDomains scopeDomains [] ! j) (Handle p)
                   (store (snd (discover_and_record w p scopeDomains st))) =
                 Some (cr_Status (CheckDomains (http w) (health_workers w) (probe_sched w)
                                    (finalDomains scopeDomains []) ! j)))) \<and>
         fst (processProgram w p st) =
           fst (SaveProgram (save_program_io w)
                  \<lparr>db_Name = Name p, db_Handle = Handle p, db_URL = URL p,
                   db_Domain = Attr_Domain p, db_OffersBounties = OffersBounties p,
                   ProgramType = programType_of p\<rparr>
                  (say (ProcessingProgram (Name p) (Handle p)) st)) \<and>
         (\<not> upsert_fails (save_program_io w) \<and> base_domains w p \<noteq> [] \<longrightarrow>
            (\<exists>st3. store st3 = store st \<and>
               processProgram w p st = discover_and_record w p (base_domains w p) st3))"
proof -
  have dd: "DiscoverDomains (discovery w) s x = ([], None)" for s x
    using assms by (rule DiscoverDomains_absent)
  define final where "final = finalDomains scopeDomains []"
  define st3 where "st3 = say (NoSubdomainsDiscovered (Handle p) (length scopeDomains))
      (say (DiscoveringSubdomains (length scopeDomains) (Handle p)) st)"
  define st4 where "st4 = say (CheckingHealth (length final) (Handle p)) st3"
  define results where "results = CheckDomains (http w) (health_workers w) (probe_sched w) final"
  define st5 where "st5 = save_results w (Handle p) 0 results st4"
  have res: "discover_and_record w p scopeDomains st = (None, say (CompletedProgram (Handle p)) st5)"
    unfolding discover_and_record_def Let_def dd st5_def results_def st4_def st3_def final_def
    by simp
  from save_results_logged[of w "Handle p" 0 results st4] obtain n5 where
    n5: "logged st5 = logged st4 @ n5" "completed n5 = []" unfolding st5_def by blast
  let ?new = "[DiscoveringSubdomains (length scopeDomains) (Handle p),
               NoSubdomainsDiscovered (Handle p) (length scopeDomains),
               CheckingHealth (length final) (Handle p)] @ n5 @ [CompletedProgram (Handle p)]"
  have "logged (snd (discover_and_record w p scopeDomains st)) = logged st @ ?new"
    unfolding res by (simp add: logged_say n5 st4_def st3_def)
  moreover have "completed ?new = [Handle p]" by (simp add: completed_append n5)
  moreover have "NoSubdomainsDiscovered (Handle p) (length scopeDomains) \<in> set ?new"
    "CheckingHealth (length (finalDomains scopeDomains [])) (Handle p) \<in> set ?new"
    by (simp_all add: final_def)
  ultimately have lg: "\<exists>new. logged (snd (discover_and_record w p scopeDomains st)) = logged st @ new \<and>
            NoSubdomainsDiscovered (Handle p) (length scopeDomains) \<in> set new \<and>
            CheckingHealth (length (finalDomains scopeDomains [])) (Handle p) \<in> set new \<and>
            completed new = [Handle p]" by blast
  have "(\<lambda>r. (cr_Domain r, Handle p)) ` set results = (\<lambda>d. (d, Handle p)) ` set (map cr_Domain results)"
    by (simp add: image_image)
  also have "map cr_Domain results = final" unfolding results_def by (rule CheckDomains_names)
  finally have rs: "(\<lambda>r. (cr_Domain r, Handle p)) ` set results = (\<lambda>d. (d, Handle p)) ` set final" .
  have "set final \<subseteq> cleanDomain ` set scopeDomains"
    unfolding final_def using finalDomains_set[of scopeDomains "[]"] by simp
  with rs have b: "(\<lambda>r. (cr_Domain r, Handle p)) ` set results \<subseteq>
      (\<lambda>d. (d, Handle p)) ` cleanDomain ` set scopeDomains" by auto
  have c: "store st4 = store st" by (simp add: st4_def st3_def store_say)
  from save_results_keys[of w "Handle p" 0 results st4]
  have a: "key_of ` set (domains (store st5)) \<subseteq>
      key_of ` set (domains (store st4)) \<union> (\<lambda>r. (cr_Domain r, Handle p)) ` set results"
    unfolding st5_def .
  from a b have "key_of ` set (domains (store st5)) \<subseteq>
      key_of ` set (domains (store st4)) \<union> (\<lambda>d. (d, Handle p)) ` cleanDomain ` set scopeDomains"
    by blast
  then have keys: "key_of ` set (domains (store (snd (discover_and_record w p scopeDomains st)))) \<subseteq>
           key_of ` set (domains (store st)) \<union>
           (\<lambda>d. (d, Handle p)) ` cleanDomain ` set scopeDomains"
    unfolding c res by (simp add: store_say)
  have names: "map cr_Domain results = final" unfolding results_def by (rule CheckDomains_names)
  have fe: "set final = cleanDomain ` set scopeDomains - {[]}" "distinct final"
    unfolding final_def using finalDomains_exact[of scopeDomains "[]"] by simp_all
  have saved: "(\<not> query_fails (save_domain_io w j) \<and> \<not> insert_fails (save_domain_io w j) \<longrightarrow>
               (final ! j, Handle p) \<in>
                 key_of ` set (domains (store (snd (discover_and_record w p scopeDomains st))))) \<and>
            (ids_ok (store st) \<and> no_faults (save_domain_io w j) \<longrightarrow>
               stored_status (final ! j) (Handle p)
                   (store (snd (discover_and_record w p scopeDomains st))) =
                 Some (cr_Status (results ! j)))" if "j < length final" for j
  proof -
    from that names have 1: "j < length results" by (metis length_map)
    from names fe(2) have 2: "distinct (map cr_Domain results)" by simp
    from names 1 have 3: "cr_Domain (results ! j) = final ! j" by (metis nth_map)
    from save_results_saved[OF 1 2, of w 0 "Handle p" st4] 3 c
    show ?thesis unfolding res st5_def by (simp add: store_say)
  qed
  from dd res lg keys processProgram_error[of w p st] fe saved processProgram_tail[of w p st]
  show ?thesis unfolding final_def results_def by simp
qed

theorem subfinder_absent_degrades_witness:
  "\<not> subfinder_in_PATH (discovery (example_program_world ExecOK)) \<and>
   DiscoverDomains (discovery (example_program_world ExecOK)) [0] [''https://*.globex.example/'']
     = ([], None) \<and>
   fst (discover_and_record (example_program_world ExecOK) (example_programs ! 1)
          [''https://*.globex.example/''] example_state) = None \<and>
   stored_status ''globex.example'' ''globex''
     (store (snd (discover_and_record (example_program_world ExecOK) (example_programs ! 1)
                    [''https://*.globex.example/''] example_state))) = Some ''up''"
proof -
  let ?w = "example_program_world ExecOK"
  let ?p = "example_programs ! 1"
  let ?sd = "[''https://*.globex.example/'']"
  have h: "\<not> subfinder_in_PATH (discovery ?w)"
    by (simp add: example_program_world_def)
  have f: "finalDomains ?sd [] = [''globex.example'']" by code_simp
  have hp: "Handle ?p = ''globex''" by (simp add: example_programs_def)
  have ok: "ids_ok (store example_state)" "no_faults (save_domain_io ?w 0)"
    by (simp_all add: ids_ok_def example_state_def empty_DB_def no_faults_def
          example_program_world_def)
  have r: "cr_Status (CheckDomains (http ?w) (health_workers ?w) (probe_sched ?w)
                        [''globex.example''] ! 0) = ''up''"
    by (simp add: example_program_world_def CheckDomains_eq probed_def positions_def
          CheckDomain_def)
  from subfinder_absent_degrades[OF h, of "[0]" ?sd ?p ?sd example_state]
  have 1: "DiscoverDomains (discovery ?w) [0] ?sd = ([], None)"
    and 2: "fst (discover_and_record ?w ?p ?sd example_state) = None"
    and 3: "\<forall>j < length (finalDomains ?sd []).
            (ids_ok (store example_state) \<and> no_faults (save_domain_io ?w j) \<longrightarrow>
               stored_status (finalDomains ?sd [] ! j) (Handle ?p)
                   (store (snd (discover_and_record ?w ?p ?sd example_state))) =
                 Some (cr_Status (CheckDomains (http ?w) (health_workers ?w) (probe_sched ?w)
                                    (finalDomains ?sd []) ! j)))"
    by blast+
  from 3 f ok r hp have "stored_status ''globex.example'' ''globex''
     (store (snd (discover_and_record ?w ?p ?sd example_state))) = Some ''up''" by simp
  with h 1 2 show ?thesis by blast
qed

section \<open>The scan orchestrator\<close>

lemma logged_say2 [simp]: "logged (say e st) = logged st @ [e]"
  by (simp add: say_def)

lemma programs_say [simp]: "programs (say e st) = programs st"
  by (simp add: say_def)

lemma holds_say: "holds n f st \<Longrightarrow> holds n f (say e st)"
  by (cases f) (auto simp: say_def)

lemma holds_logged_say: "n \<le> length (logged st) \<Longrightarrow> holds n (Logged e) (say e st)"
  by simp

lemma insert_domain_keys:
  "key_of ` set (domains db) \<subseteq> key_of ` set (domains (snd (insert_domain io d db)))"
  by (auto simp: insert_domain_def)

lemma insert_status_change_domains [simp]:
  "domains (snd (insert_status_change io d old db)) = domains db"
  by (simp add: insert_status_change_def)

lemma update_domain_keys:
  "key_of ` set (domains (snd (update_domain io d existingID db))) = key_of ` set (domains db)"
proof -
  have "map key_of (domains (snd (update_domain io d existingID db))) = map key_of (domains db)"
    by (simp add: update_domain_def key_of_def comp_def)
  then show ?thesis by (metis list.set_map)
qed

lemma holds_store:
  assumes "holds n f st" "key_of ` set (domains (store st)) \<subseteq> key_of ` set (domains db')"
  shows "holds n f (st\<lparr>store := db'\<rparr>)"
  using assms by (cases f) auto

lemma step_action_holds:
  assumes "holds n f st"
  shows "holds n f (snd (step_action a st))"
proof (cases a)
  case (Log e)
  with assms show ?thesis by (simp add: holds_say)
next
  case (Save io d s)
  show ?thesis
  proof (cases s)
    case ToQuery
    with Save assms show ?thesis by simp
  next
    case (ToWrite found)
    show ?thesis
    proof (cases found)
      case ErrNoRows
      with Save ToWrite assms insert_domain_keys[of "store st" io d] show ?thesis
        by (auto split: prod.splits intro!: holds_store)
    next
      case QueryError
      with Save ToWrite assms show ?thesis by simp
    next
      case (Row existingID existingIsNew oldStatus)
      with Save ToWrite assms update_domain_keys[of io d existingID "store st"] show ?thesis
        by (auto split: prod.splits intro!: holds_store)
    qed
  next
    case (ToUpdate existingID)
    with Save assms update_domain_keys[of io d existingID "store st"] show ?thesis
      by (auto split: prod.splits intro!: holds_store)
  next
    case (ToReturn err)
    with Save assms show ?thesis by (cases err) (simp_all add: holds_say)
  qed
qed

lemma holds_replace_program: "holds n f st \<Longrightarrow> holds n f (replace_program row st)"
  by (cases f) (auto simp: replace_program_def image_iff)

lemma SaveProgram_holds: "holds n f st \<Longrightarrow> holds n f (snd (SaveProgram io p st))"
  by (auto simp: SaveProgram_def holds_replace_program split: exec_outcome.splits)

lemma step_goroutine_holds:
  assumes "holds n f st"
  shows "holds n f (snd (step_goroutine g st))"
proof -
  obtain w p c where g: "g = (w, p, c)" by (cases g)
  show ?thesis
  proof (cases c)
    case Start
    with g assms show ?thesis by (simp add: holds_say)
  next
    case Upsert
    let ?dbp = "\<lparr>db_Name = Name p, db_Handle = Handle p, db_URL = URL p,
              db_Domain = Attr_Domain p, db_OffersBounties = OffersBounties p,
              ProgramType = programType_of p\<rparr>"
    obtain err st' where sp: "SaveProgram (save_program_io w) ?dbp st = (err, st')"
      by (cases "SaveProgram (save_program_io w) ?dbp st")
    from SaveProgram_holds[OF assms, of "save_program_io w" ?dbp] sp have "holds n f st'" by simp
    with g Upsert sp show ?thesis by (cases err) simp_all
  next
    case (Pending as)
    show ?thesis
    proof (cases as)
      case Nil
      with g Pending assms show ?thesis by simp
    next
      case (Cons a rest)
      with g Pending step_action_holds[OF assms, of a] show ?thesis
        by (auto split: prod.splits option.splits)
    qed
  qed
qed

lemma query_found_key:
  "query_domain io d db = Row i n s \<Longrightarrow> (Domain d, Program d) \<in> key_of ` set (domains db)"
  by (auto simp: query_domain_def split: if_splits option.splits dest: find_Some_key)

lemma insert_domain_present:
  "\<not> insert_fails io \<Longrightarrow>
     (Domain d, Program d) \<in> key_of ` set (domains (snd (insert_domain io d db)))"
proof (cases "list_ex (has_key (Domain d) (Program d)) (domains db)")
  case True
  then obtain x where "x \<in> set (domains db)" "key_of x = (Domain d, Program d)"
    by (auto simp: list_ex_iff has_key_def key_of_def)
  then have "(Domain d, Program d) \<in> key_of ` set (domains db)" by force
  with insert_domain_keys[of db io d] show ?thesis by blast
next
  case False
  assume "\<not> insert_fails io"
  with False show ?thesis by (simp add: insert_domain_def key_of_def)
qed

lemma step_action_owed:
  assumes "n \<le> length (logged st)" "f \<in> action_owed a"
  shows "holds n f (snd (step_action a st)) \<or>
         (\<exists>a'. fst (step_action a st) = Some a' \<and> f \<in> action_owed a')"
proof (cases a)
  case (Log e)
  with assms show ?thesis by simp
next
  case (Save io d s)
  show ?thesis
  proof (cases s)
    case ToQuery
    with Save assms have ok: "\<not> query_fails io" "\<not> insert_fails io"
      and f: "f = Stored (Domain d, Program d)" by (auto split: if_splits)
    show ?thesis
    proof (cases "query_domain io d (store st)")
      case ErrNoRows
      with Save ToQuery ok f show ?thesis by simp
    next
      case QueryError
      with ok show ?thesis by (simp add: query_domain_def split: option.splits)
    next
      case (Row i n' s')
      from query_found_key[OF this] Save ToQuery f show ?thesis by simp
    qed
  next
    case (ToWrite found)
    with Save assms have fnd: "found = ErrNoRows" and ok: "\<not> insert_fails io"
      and f: "f = Stored (Domain d, Program d)" by (auto split: if_splits)
    from insert_domain_present[OF ok, of d "store st"] Save ToWrite fnd f show ?thesis
      by (auto split: prod.splits)
  next
    case (ToUpdate existingID)
    with Save assms show ?thesis by simp
  next
    case (ToReturn err)
    with Save assms show ?thesis by simp
  qed
qed

lemma SaveProgram_listed:
  "\<not> upsert_fails io \<Longrightarrow> db_Handle p \<in> prog_handle ` set (programs (snd (SaveProgram io p st)))"
  by (auto simp: SaveProgram_def upsert_fails_def replace_program_def split: exec_outcome.splits)

lemma SaveProgram_logged2 [simp]: "logged (snd (SaveProgram io p st)) = logged st"
  by (simp add: SaveProgram_def replace_program_def split: exec_outcome.splits)

lemma step_goroutine_owed:
  assumes "n \<le> length (logged st)" "f \<in> owed g"
  shows "holds n f (snd (step_goroutine g st)) \<or> f \<in> owed (fst (step_goroutine g st))"
proof -
  obtain w p c where g: "g = (w, p, c)" by (cases g)
  show ?thesis
  proof (cases c)
    case Start
    with g assms show ?thesis by auto
  next
    case Upsert
    let ?dbp = "\<lparr>db_Name = Name p, db_Handle = Handle p, db_URL = URL p,
              db_Domain = Attr_Domain p, db_OffersBounties = OffersBounties p,
              ProgramType = programType_of p\<rparr>"
    obtain err st' where sp: "SaveProgram (save_program_io w) ?dbp st = (err, st')"
      by (cases "SaveProgram (save_program_io w) ?dbp st")
    show ?thesis
    proof (cases "upsert_fails (save_program_io w)")
      case True
      with SaveProgram_error[of "save_program_io w" ?dbp st] sp have "err = Some StoreError" by simp
      with g Upsert sp assms True show ?thesis by (simp add: owed_by_upsert_def)
    next
      case False
      with SaveProgram_error[of "save_program_io w" ?dbp st] sp have e: "err = None" by simp
      from SaveProgram_listed[OF False, of ?dbp st] sp
      have "Handle p \<in> prog_handle ` set (programs st')" by simp
      with g Upsert sp assms False e show ?thesis by (auto simp: owed_by_upsert_def)
    qed
  next
    case (Pending as)
    show ?thesis
    proof (cases as)
      case Nil
      with g Pending assms show ?thesis by simp
    next
      case (Cons a rest)
      from assms g Pending Cons consider "f \<in> action_owed a" | "f \<in> \<Union> (action_owed ` set rest)"
        by auto
      then show ?thesis
      proof cases
        case 1
        from step_action_owed[OF assms(1) 1] g Pending Cons show ?thesis
          by (auto split: prod.splits option.splits)
      next
        case 2
        with g Pending Cons show ?thesis by (auto split: prod.splits option.splits)
      qed
    qed
  qed
qed

lemma step_action_log:
  assumes "action_quiet a"
  shows "\<exists>es. logged (snd (step_action a st)) = logged st @ es \<and> started es = [] \<and>
              (\<forall>a'. fst (step_action a st) = Some a' \<longrightarrow> action_quiet a')"
proof (cases a)
  case (Log e)
  with assms show ?thesis by simp
next
  case (Save io d s)
  show ?thesis
  proof (cases s)
    case ToQuery
    with Save show ?thesis by simp
  next
    case (ToWrite found)
    with Save show ?thesis by (cases found) (auto split: prod.splits)
  next
    case (ToUpdate existingID)
    with Save show ?thesis by (auto split: prod.splits)
  next
    case (ToReturn err)
    with Save show ?thesis by (cases err) simp_all
  qed
qed

lemma save_actions_quiet: "\<forall>a \<in> set (save_actions w h i results). action_quiet a"
  by (induction results arbitrary: i) simp_all

lemma discover_and_record_actions_quiet:
  "\<forall>a \<in> set (discover_and_record_actions w p sd). action_quiet a"
  using save_actions_quiet
  by (auto simp: discover_and_record_actions_def Let_def split: option.splits)

lemma after_SaveProgram_quiet: "\<forall>a \<in> set (after_SaveProgram w p). action_quiet a"
  using discover_and_record_actions_quiet
  by (auto simp: after_SaveProgram_def Let_def split: sum.splits)

lemma step_goroutine_log:
  assumes "quiet g"
  shows "\<exists>es. logged (snd (step_goroutine g st)) = logged st @ es \<and>
              started es = (if pc_of g = Start then [Handle (program_of g)] else []) \<and>
              quiet (fst (step_goroutine g st)) \<and>
              fst (fst (step_goroutine g st)) = fst g \<and>
              program_of (fst (step_goroutine g st)) = program_of g \<and>
              pc_of (fst (step_goroutine g st)) \<noteq> Start"
proof -
  obtain w p c where g: "g = (w, p, c)" by (cases g)
  show ?thesis
  proof (cases c)
    case Start
    with g show ?thesis by (simp add: pc_of_def program_of_def)
  next
    case Upsert
    let ?dbp = "\<lparr>db_Name = Name p, db_Handle = Handle p, db_URL = URL p,
              db_Domain = Attr_Domain p, db_OffersBounties = OffersBounties p,
              ProgramType = programType_of p\<rparr>"
    obtain err st' where sp: "SaveProgram (save_program_io w) ?dbp st = (err, st')"
      by (cases "SaveProgram (save_program_io w) ?dbp st")
    from SaveProgram_logged2[of "save_program_io w" ?dbp st] sp have "logged st' = logged st" by simp
    with g Upsert sp after_SaveProgram_quiet[of w p] show ?thesis
      by (cases err) (simp_all add: pc_of_def program_of_def)
  next
    case (Pending as)
    show ?thesis
    proof (cases as)
      case Nil
      with g Pending show ?thesis by (simp add: pc_of_def program_of_def)
    next
      case (Cons a rest)
      with assms g Pending have qa: "action_quiet a" and qr: "\<forall>x \<in> set rest. action_quiet x" by auto
      from step_action_log[OF qa, of st] obtain es where
        es: "logged (snd (step_action a st)) = logged st @ es" "started es = []"
            "\<forall>a'. fst (step_action a st) = Some a' \<longrightarrow> action_quiet a'" by blast
      obtain r st' where sa: "step_action a st = (r, st')" by (cases "step_action a st")
      with es g Pending Cons qr show ?thesis
        by (cases r) (auto simp: pc_of_def program_of_def)
    qed
  qed
qed

lemma action_work_pos: "0 < action_work a"
  by (induction a rule: action_work.induct) simp_all

lemma step_action_work:
  "(case fst (step_action a st) of None \<Rightarrow> True | Some a' \<Rightarrow> action_work a' < action_work a)"
proof (cases a)
  case (Log e)
  then show ?thesis by simp
next
  case (Save io d s)
  show ?thesis
  proof (cases s)
    case ToQuery
    with Save show ?thesis by simp
  next
    case (ToWrite found)
    with Save show ?thesis by (cases found) (auto split: prod.splits)
  next
    case (ToUpdate existingID)
    with Save show ?thesis by (auto split: prod.splits)
  next
    case (ToReturn err)
    with Save show ?thesis by (cases err) simp_all
  qed
qed

lemma work_zero: "work g = 0 \<Longrightarrow> pc_of g = Pending []"
proof -
  assume w0: "work g = 0"
  obtain w p c where g: "g = (w, p, c)" by (cases g)
  show ?thesis
  proof (cases c)
    case (Pending as)
    with g w0 have s0: "sum_list (map action_work as) = 0" by simp
    have "as = []"
    proof (cases as)
      case (Cons a rest)
      with s0 action_work_pos[of a] show ?thesis by simp
    qed simp
    with g Pending show ?thesis by (simp add: pc_of_def)
  qed (use g w0 in simp_all)
qed

lemma step_finished: "pc_of g = Pending [] \<Longrightarrow> step_goroutine g st = (g, st)"
  by (cases g) (simp add: pc_of_def)

lemma work_step:
  assumes "pc_of g \<noteq> Pending []"
  shows "work (fst (step_goroutine g st)) < work g"
proof -
  obtain w p c where g: "g = (w, p, c)" by (cases g)
  show ?thesis
  proof (cases c)
    case Start
    with g show ?thesis by simp
  next
    case Upsert
    with g show ?thesis by (auto split: prod.splits option.splits)
  next
    case (Pending as)
    with g assms obtain a rest where as: "as = a # rest" by (cases as) (auto simp: pc_of_def)
    from step_action_work[of a st] g Pending as action_work_pos[of a] show ?thesis
      by (auto split: prod.splits option.splits)
  qed
qed

lemma run_append: "run (a @ b) c = run b (run a c)"
proof (induction a arbitrary: c)
  case Nil
  then show ?case by simp
next
  case (Cons i a)
  obtain gs st where c: "c = (gs, st)" by (cases c)
  show ?case unfolding c by (simp add: Cons.IH split: prod.splits)
qed

lemma run_replicate:
  assumes "i < length gs" "work (gs ! i) \<le> k"
  shows "pc_of (fst (run (replicate k i) (gs, st)) ! i) = Pending [] \<and>
         (\<forall>j. j \<noteq> i \<longrightarrow> fst (run (replicate k i) (gs, st)) ! j = gs ! j) \<and>
         length (fst (run (replicate k i) (gs, st))) = length gs"
  using assms
proof (induction k arbitrary: gs st)
  case 0
  then show ?case by (simp add: work_zero)
next
  case (Suc k)
  obtain g' st' where s: "step_goroutine (gs ! i) st = (g', st')"
    by (cases "step_goroutine (gs ! i) st")
  have r: "run (replicate (Suc k) i) (gs, st) = run (replicate k i) (gs[i := g'], st')"
    using Suc.prems(1) s by simp
  have w: "work g' \<le> k"
  proof (cases "pc_of (gs ! i) = Pending []")
    case True
    with step_finished[OF True, of st] s have "g' = gs ! i" by simp
    moreover from True have "work (gs ! i) = 0" by (cases "gs ! i") (simp add: pc_of_def)
    ultimately show ?thesis by simp
  next
    case False
    from work_step[OF False, of st] s Suc.prems(2) show ?thesis by simp
  qed
  from Suc.IH[of "gs[i := g']" st'] Suc.prems(1) w
  show ?case unfolding r by simp
qed

lemma run_length: "length (fst (run sched c)) = length (fst c)"
proof (induction sched arbitrary: c)
  case Nil
  then show ?case by simp
next
  case (Cons i sched)
  obtain gs st where c: "c = (gs, st)" by (cases c)
  show ?case unfolding c by (simp add: Cons.IH split: prod.splits)
qed

lemma wait_blocks:
  assumes "distinct is" "\<forall>i \<in> set is. i < length gs \<and> gs ! i = gs0 ! i"
  shows "(\<forall>i \<in> set is. pc_of (fst (run (concat (map (\<lambda>i. replicate (work (gs0 ! i)) i) is)) (gs, st)) ! i) = Pending []) \<and>
         (\<forall>j. j \<notin> set is \<longrightarrow> fst (run (concat (map (\<lambda>i. replicate (work (gs0 ! i)) i) is)) (gs, st)) ! j = gs ! j) \<and>
         length (fst (run (concat (map (\<lambda>i. replicate (work (gs0 ! i)) i) is)) (gs, st))) = length gs"
  using assms
proof (induction "is" arbitrary: gs st)
  case Nil
  then show ?case by simp
next
  case (Cons i "is")
  let ?c1 = "run (replicate (work (gs0 ! i)) i) (gs, st)"
  obtain gs1 st1 where c1: "?c1 = (gs1, st1)" by (cases ?c1)
  from Cons.prems have i: "i < length gs" "gs ! i = gs0 ! i" by auto
  from run_replicate[OF i(1), of "work (gs0 ! i)" st] i(2) c1
  have b: "pc_of (gs1 ! i) = Pending []" "\<forall>j. j \<noteq> i \<longrightarrow> gs1 ! j = gs ! j" "length gs1 = length gs"
    by simp_all
  from Cons.prems b have p: "distinct is" "\<forall>i' \<in> set is. i' < length gs1 \<and> gs1 ! i' = gs0 ! i'"
    by auto
  have r: "run (concat (map (\<lambda>i. replicate (work (gs0 ! i)) i) (i # is))) (gs, st) =
        run (concat (map (\<lambda>i. replicate (work (gs0 ! i)) i) is)) (gs1, st1)"
    by (simp add: run_append c1)
  from Cons.IH[OF p, of st1] b Cons.prems(1)
  show ?case unfolding r by auto
qed

lemma wait_finishes:
  "\<forall>i < length gs. pc_of (fst (run (wait_schedule gs) (gs, st)) ! i) = Pending []"
  using wait_blocks[of "[0..<length gs]" gs gs st]
  by (simp add: wait_schedule_def)

lemma started_set_update:
  assumes "i < length gs"
  shows "started_set (gs[i := g']) + (if pc_of (gs ! i) \<noteq> Start then {#Handle (program_of (gs ! i))#} else {#})
       = started_set gs + (if pc_of g' \<noteq> Start then {#Handle (program_of g')#} else {#})"
proof -
  let ?R = "mset gs - {#gs ! i#}"
  from assms have a: "mset gs = add_mset (gs ! i) ?R" by simp
  from assms have b: "mset (gs[i := g']) = add_mset g' ?R" by (simp add: mset_update)
  show ?thesis
    unfolding started_set_def b
    by (subst (2) a) simp
qed

lemma inv_step:
  assumes scan_inv: "scan_inv n l0 gs0 (gs, st)" and i: "i < length gs"
    and s: "step_goroutine (gs ! i) st = (g', st')"
  shows "scan_inv n l0 gs0 (gs[i := g'], st')"
proof -
  from scan_inv have len: "length gs = length gs0" and n: "n \<le> length (logged st)"
    and tk: "take n (logged st) = l0"
    and per: "\<And>j. j < length gs0 \<Longrightarrow> fst (gs ! j) = fst (gs0 ! j) \<and> program_of (gs ! j) = program_of (gs0 ! j) \<and>
         quiet (gs ! j) \<and> (\<forall>f \<in> owed (gs0 ! j). holds n f st \<or> f \<in> owed (gs ! j))"
    and ms: "mset (started (drop n (logged st))) = started_set gs"
    by (simp_all add: scan_inv_def)
  from i len per[of i] have q: "quiet (gs ! i)" by simp
  from step_goroutine_log[OF q, of st] s obtain es where
    es: "logged st' = logged st @ es"
        "started es = (if pc_of (gs ! i) = Start then [Handle (program_of (gs ! i))] else [])"
        "quiet g'" "fst g' = fst (gs ! i)" "program_of g' = program_of (gs ! i)" "pc_of g' \<noteq> Start"
    by auto
  have n': "n \<le> length (logged st')" using n es(1) by simp
  have tk': "take n (logged st') = l0" using n tk es(1) by simp
  have dr: "drop n (logged st') = drop n (logged st) @ es" using n es(1) by simp
  have per': "fst (gs[i := g'] ! j) = fst (gs0 ! j) \<and> program_of (gs[i := g'] ! j) = program_of (gs0 ! j) \<and>
         quiet (gs[i := g'] ! j) \<and> (\<forall>f \<in> owed (gs0 ! j). holds n f st' \<or> f \<in> owed (gs[i := g'] ! j))"
    if j: "j < length gs0" for j
  proof (cases "j = i")
    case True
    have "holds n f st' \<or> f \<in> owed g'" if f: "f \<in> owed (gs0 ! i)" for f
    proof -
      from per[of i] i len f consider "holds n f st" | "f \<in> owed (gs ! i)" by auto
      then show ?thesis
      proof cases
        case 1
        from step_goroutine_holds[OF 1, of "gs ! i"] s show ?thesis by simp
      next
        case 2
        from step_goroutine_owed[OF n 2] s show ?thesis by simp
      qed
    qed
    with True i len per[of i] es show ?thesis by simp
  next
    case False
    have "holds n f st' \<or> f \<in> owed (gs ! j)" if f: "f \<in> owed (gs0 ! j)" for f
    proof -
      from per[OF j] f consider "holds n f st" | "f \<in> owed (gs ! j)" by auto
      then show ?thesis
      proof cases
        case 1
        from step_goroutine_holds[OF 1, of "gs ! i"] s show ?thesis by simp
      qed simp
    qed
    with False per[OF j] show ?thesis by simp
  qed
  have ms': "mset (started (drop n (logged st'))) = started_set (gs[i := g'])"
  proof -
    have "mset (started (drop n (logged st'))) =
        started_set gs + (if pc_of (gs ! i) = Start then {#Handle (program_of (gs ! i))#} else {#})"
      unfolding dr by (simp add: started_append ms es(2))
    moreover from started_set_update[OF i, of g'] es(5,6)
    have "started_set (gs[i := g']) + (if pc_of (gs ! i) \<noteq> Start then {#Handle (program_of (gs ! i))#} else {#})
       = started_set gs + {#Handle (program_of (gs ! i))#}" by simp
    ultimately show ?thesis by (cases "pc_of (gs ! i) = Start") simp_all
  qed
  from len n' tk' per' ms' show ?thesis by (simp add: scan_inv_def)
qed

lemma inv_run: "scan_inv n l0 gs0 c \<Longrightarrow> scan_inv n l0 gs0 (run sched c)"
proof (induction sched arbitrary: c)
  case Nil
  then show ?case by simp
next
  case (Cons i sched)
  obtain gs st where c: "c = (gs, st)" by (cases c)
  show ?case
  proof (cases "i < length gs")
    case True
    obtain g' st' where s: "step_goroutine (gs ! i) st = (g', st')"
      by (cases "step_goroutine (gs ! i) st")
    from inv_step[OF Cons.prems[unfolded c] True s] have "scan_inv n l0 gs0 (gs[i := g'], st')" .
    from Cons.IH[OF this] True s show ?thesis unfolding c by simp
  next
    case False
    with Cons.IH[OF Cons.prems] show ?thesis unfolding c by simp
  qed
qed

lemma save_actions_nth:
  "j < length results \<Longrightarrow>
     Save (save_domain_io w (i + j))
          \<lparr>ID = 0, Domain = cr_Domain (results ! j), Program = h, Status = cr_Status (results ! j),
           DiscoveredAt = fst (time_now w (i + j)), LastChecked = snd (time_now w (i + j)),
           IsNew = False\<rparr> ToQuery
     \<in> set (save_actions w h i results)"
proof (induction results arbitrary: i j)
  case Nil
  then show ?case by simp
next
  case (Cons r results)
  show ?case
  proof (cases j)
    case 0
    then show ?thesis by simp
  next
    case (Suc j')
    with Cons.prems have "j' < length results" by simp
    from Cons.IH[OF this, of "Suc i"] Suc show ?thesis by simp
  qed
qed

lemma DiscoverDomains_no_error: "snd (DiscoverDomains w sched ds) = None"
  by (simp add: DiscoverDomains_def Let_def)

lemma owed_discover_and_record:
  assumes all: "\<forall>a \<in> set (discover_and_record_actions w p base). \<forall>f \<in> action_owed a. holds n f st"
  shows "(let found = DiscoverDomains (discovery w) (discovery_sched w) base;
              discovered = (case snd found of Some err \<Rightarrow> [] | None \<Rightarrow> fst found);
              final = finalDomains base discovered
          in holds n (Logged (CheckingHealth (length final) (Handle p))) st \<and>
             holds n (Logged (CompletedProgram (Handle p))) st \<and>
             (\<forall>j < length final. \<not> query_fails (save_domain_io w j) \<and>
                  \<not> insert_fails (save_domain_io w j) \<longrightarrow>
                    holds n (Stored (final ! j, Handle p)) st))"
proof -
  define found where "found = DiscoverDomains (discovery w) (discovery_sched w) base"
  define discovered where "discovered = (case snd found of Some err \<Rightarrow> [] | None \<Rightarrow> fst found)"
  define final where "final = finalDomains base discovered"
  define results where "results = CheckDomains (http w) (health_workers w) (probe_sched w) final"
  have acts: "discover_and_record_actions w p base =
     [Log (DiscoveringSubdomains (length base) (Handle p))] @
         (case snd found of Some err \<Rightarrow> [Log (DiscoveryFailed (Handle p) err)] | None \<Rightarrow> []) @
         [Log (if length discovered > 0
               then DiscoveredSubdomains (length discovered) (Handle p)
               else NoSubdomainsDiscovered (Handle p) (length base)),
          Log (CheckingHealth (length final) (Handle p))] @
         save_actions w (Handle p) 0 results @
         [Log (CompletedProgram (Handle p))]"
    unfolding discover_and_record_actions_def Let_def results_def final_def discovered_def found_def ..
  have 1: "Log (CheckingHealth (length final) (Handle p)) \<in> set (discover_and_record_actions w p base)"
    unfolding acts by simp
  have 2: "Log (CompletedProgram (Handle p)) \<in> set (discover_and_record_actions w p base)"
    unfolding acts by simp
  have names: "map cr_Domain results = final" unfolding results_def by (rule CheckDomains_names)
  have 3: "holds n (Stored (final ! j, Handle p)) st"
    if j: "j < length final" and ok: "\<not> query_fails (save_domain_io w j)" "\<not> insert_fails (save_domain_io w j)"
    for j
  proof -
    from j names have jr: "j < length results" by (metis length_map)
    from names jr have nm: "cr_Domain (results ! j) = final ! j" by (metis nth_map)
    let ?a = "Save (save_domain_io w j)
          \<lparr>ID = 0, Domain = cr_Domain (results ! j), Program = Handle p, Status = cr_Status (results ! j),
           DiscoveredAt = fst (time_now w j), LastChecked = snd (time_now w j),
           IsNew = False\<rparr> ToQuery"
    from save_actions_nth[OF jr, of w 0 "Handle p"]
    have "?a \<in> set (discover_and_record_actions w p base)" unfolding acts by simp
    with all have "\<forall>f \<in> action_owed ?a. holds n f st" by blast
    with ok nm show ?thesis by simp
  qed
  from all 1 2 3 show ?thesis
    unfolding found_def[symmetric] discovered_def[symmetric] final_def[symmetric] Let_def
    by force
qed

lemma finalDomains_slot:
  assumes "d \<in> set a \<union> set b" "cleanDomain d \<noteq> []"
  shows "\<exists>j < length (finalDomains a b). finalDomains a b ! j = cleanDomain d"
proof -
  from assms finalDomains_exact[of a b] have "cleanDomain d \<in> set (finalDomains a b)" by blast
  then show ?thesis by (auto simp: in_set_conv_nth)
qed

lemma processed_from_owed:
  assumes all: "\<forall>f \<in> owed (w, p, Start). holds n f st"
    and new: "new = drop n (logged st)"
  shows "processed w p new st"
proof -
  have lg: "holds n (Logged e) st \<longleftrightarrow> e \<in> set new" for e by (simp add: new)
  from all have start: "ProcessingProgram (Name p) (Handle p) \<in> set new" by (simp add: lg[symmetric])
  show ?thesis
  proof (cases "upsert_fails (save_program_io w)")
    case True
    with all have "ErrorSavingProgram (Handle p) StoreError \<in> set new"
      by (simp add: owed_by_upsert_def lg[symmetric])
    with True start show ?thesis by (simp add: processed_def Let_def)
  next
    case False
    with all have listed: "Handle p \<in> prog_handle ` set (programs st)"
      and acts: "\<forall>a \<in> set (after_SaveProgram w p). \<forall>f \<in> action_owed a. holds n f st"
      by (auto simp: owed_by_upsert_def)
    have sc: "ErrorGettingScope (Handle p) err \<in> set new" if "scope w = Inl err" for err
    proof -
      from that have "Log (ErrorGettingScope (Handle p) err) \<in> set (after_SaveProgram w p)"
        by (simp add: after_SaveProgram_def Let_def)
      with acts show ?thesis by (fastforce simp: lg[symmetric])
    qed
    show ?thesis
    proof (cases "base_domains w p = []")
      case True
      then have "Log (NoDomainsFound (Handle p)) \<in> set (after_SaveProgram w p)"
        by (auto simp: after_SaveProgram_def base_domains_def Let_def split: sum.splits if_splits)
      with acts have "NoDomainsFound (Handle p) \<in> set new" by (fastforce simp: lg[symmetric])
      with True False start listed sc show ?thesis by (simp add: processed_def Let_def)
    next
      case nonempty: False
      then have "set (discover_and_record_actions w p (base_domains w p)) \<subseteq> set (after_SaveProgram w p)"
        by (auto simp: after_SaveProgram_def base_domains_def Let_def split: sum.splits if_splits)
      with acts have "\<forall>a \<in> set (discover_and_record_actions w p (base_domains w p)).
          \<forall>f \<in> action_owed a. holds n f st" by blast
      note tail = owed_discover_and_record[OF this]
      define found where "found = DiscoverDomains (discovery w) (discovery_sched w) (base_domains w p)"
      define discovered where "discovered = (case snd found of Some err \<Rightarrow> [] | None \<Rightarrow> fst found)"
      define final where "final = finalDomains (base_domains w p) discovered"
      from tail have ch: "CheckingHealth (length final) (Handle p) \<in> set new"
        and co: "CompletedProgram (Handle p) \<in> set new"
        and st: "\<And>j. j < length final \<Longrightarrow> \<not> query_fails (save_domain_io w j) \<and>
                  \<not> insert_fails (save_domain_io w j) \<Longrightarrow>
                    (final ! j, Handle p) \<in> key_of ` set (domains (store st))"
        unfolding Let_def found_def[symmetric] discovered_def[symmetric] final_def[symmetric]
        by (simp_all add: new)
      have slots: "\<exists>j < length final. final ! j = cleanDomain d \<and>
                           (\<not> query_fails (save_domain_io w j) \<and>
                            \<not> insert_fails (save_domain_io w j) \<longrightarrow>
                              (cleanDomain d, Handle p) \<in> key_of ` set (domains (store st)))"
        if d: "d \<in> set (base_domains w p) \<union> set discovered" "cleanDomain d \<noteq> []" for d
      proof -
        from finalDomains_slot[OF d] obtain j where j: "j < length final" "final ! j = cleanDomain d"
          unfolding final_def by blast
        with st[of j] show ?thesis by auto
      qed
      from nonempty False start listed sc ch co slots show ?thesis
        unfolding processed_def Let_def found_def[symmetric] discovered_def[symmetric]
          final_def[symmetric]
        by simp
    qed
  qed
qed

declare do_all.simps(2) [simp del]

lemma do_all_Log [simp]: "do_all (Log e # rest) st = do_all rest (say e st)"
  by (simp add: do_all.simps(2))

lemma run_alone_pending:
  "sum_list (map action_work as) \<le> k \<Longrightarrow>
     run (replicate k 0) ([(w, p, Pending as)], st) = ([(w, p, Pending [])], do_all as st)"
proof (induction k arbitrary: as st)
  case 0
  then have "as = []" using action_work_pos by (cases as) (auto simp: not_less[symmetric])
  then show ?case by simp
next
  case (Suc k)
  show ?case
  proof (cases as)
    case Nil
    with Suc.IH[of "[]" st] show ?thesis by simp
  next
    case (Cons a rest)
    obtain r st' where sa: "step_action a st = (r, st')" by (cases "step_action a st")
    show ?thesis
    proof (cases r)
      case None
      from Suc.prems Cons action_work_pos[of a] have "sum_list (map action_work rest) \<le> k" by simp
      from Suc.IH[OF this, of st'] Cons sa None show ?thesis by (simp add: do_all.simps(2))
    next
      case (Some a')
      with step_action_work[of a st] sa have "action_work a' < action_work a" by simp
      with Suc.prems Cons have "sum_list (map action_work (a' # rest)) \<le> k" by simp
      from Suc.IH[OF this, of st'] Cons sa Some show ?thesis by (simp add: do_all.simps(2))
    qed
  qed
qed

lemma do_all_Save:
  "do_all (Save io d ToQuery # rest) st =
     do_all rest (case SaveDomain io d (store st) of
                    (None, db') \<Rightarrow> st\<lparr>store := db'\<rparr>
                  | (Some err, db') \<Rightarrow> say (ErrorSavingDomain (Domain d) err) (st\<lparr>store := db'\<rparr>))"
proof (cases "query_domain io d (store st)")
  case ErrNoRows
  obtain err db' where i: "insert_domain io d (store st) = (err, db')"
    by (cases "insert_domain io d (store st)")
  with ErrNoRows show ?thesis
    by (cases err) (simp_all add: do_all.simps(2) SaveDomain_def finish_SaveDomain_def)
next
  case QueryError
  then show ?thesis
    by (simp add: do_all.simps(2) SaveDomain_def finish_SaveDomain_def say_def)
next
  case (Row existingID existingIsNew oldStatus)
  show ?thesis
  proof (cases "oldStatus \<noteq> Status d")
    case True
    let ?db1 = "snd (insert_status_change io d oldStatus (store st))"
    obtain err db' where u: "update_domain io d existingID ?db1 = (err, db')"
      by (cases "update_domain io d existingID ?db1")
    with Row True show ?thesis
      by (cases err) (simp_all add: do_all.simps(2) SaveDomain_def finish_SaveDomain_def Let_def)
  next
    case False
    obtain err db' where u: "update_domain io d existingID (store st) = (err, db')"
      by (cases "update_domain io d existingID (store st)")
    with Row False show ?thesis
      by (cases err) (simp_all add: do_all.simps(2) SaveDomain_def finish_SaveDomain_def Let_def)
  qed
qed

lemma do_all_append: "do_all (as @ bs) st = do_all bs (do_all as st)"
proof (induction as st rule: do_all.induct)
  case (1 st)
  then show ?case by simp
next
  case (2 a rest st)
  obtain r st' where sa: "step_action a st = (r, st')" by (cases "step_action a st")
  show ?case
  proof (cases r)
    case None
    with 2(1)[OF sa[symmetric] None] sa show ?thesis by (simp add: do_all.simps(2))
  next
    case (Some a')
    with 2(2)[OF sa[symmetric] Some] sa show ?thesis by (simp add: do_all.simps(2))
  qed
qed

lemma do_all_save_actions:
  "do_all (save_actions w h i results) st = save_results w h i results st"
proof (induction results arbitrary: i st)
  case Nil
  then show ?case by simp
next
  case (Cons r results)
  let ?d = "\<lparr>ID = 0, Domain = cr_Domain r, Program = h, Status = cr_Status r,
               DiscoveredAt = fst (time_now w i), LastChecked = snd (time_now w i),
               IsNew = False\<rparr>"
  obtain err db' where s: "SaveDomain (save_domain_io w i) ?d (store st) = (err, db')"
    by (cases "SaveDomain (save_domain_io w i) ?d (store st)")
  then show ?case by (cases err) (simp_all add: do_all_Save Cons.IH)
qed

lemma do_all_discover_and_record:
  "do_all (discover_and_record_actions w p sd) st = snd (discover_and_record w p sd st)"
  by (cases "snd (DiscoverDomains (discovery w) (discovery_sched w) sd)")
     (simp_all add: discover_and_record_actions_def discover_and_record_def Let_def
        do_all_append do_all_save_actions)

lemma do_all_after_SaveProgram:
  "do_all (after_SaveProgram w p) st =
     snd (let scopeDomains = (case scope w of Inl err \<Rightarrow> [] | Inr found \<Rightarrow> found);
              st3 = (case scope w of
                       Inl err \<Rightarrow> say (ErrorGettingScope (Handle p) err) st
                     | Inr found \<Rightarrow> st)
          in if length scopeDomains = 0
             then (if Attr_Domain p \<noteq> []
                   then discover_and_record w p [Attr_Domain p]
                          (say (UsingProgramDomain (Handle p) (Attr_Domain p)) st3)
                   else (None, say (NoDomainsFound (Handle p)) st3))
             else discover_and_record w p scopeDomains
                    (say (FoundScopeDomains (length scopeDomains) (Handle p)) st3))"
  by (cases "scope w")
     (simp_all add: after_SaveProgram_def Let_def do_all_append do_all_discover_and_record)

text \<open>
  A goroutine that takes all its steps with no other goroutine in between leaves the
  state that \<open>processProgram\<close> leaves: the actions are \<open>processProgram\<close>, cut into steps.
\<close>

lemma goroutine_alone:
  assumes "work (w, p, Start) \<le> k"
  shows "run (replicate k 0) ([(w, p, Start)], st) =
           ([(w, p, Pending [])], snd (processProgram w p st))"
proof -
  let ?dbp = "\<lparr>db_Name = Name p, db_Handle = Handle p, db_URL = URL p,
              db_Domain = Attr_Domain p, db_OffersBounties = OffersBounties p,
              ProgramType = programType_of p\<rparr>"
  let ?st1 = "say (ProcessingProgram (Name p) (Handle p)) st"
  from assms obtain k' where k: "k = Suc (Suc k')"
    and k': "Suc (sum_list (map action_work (after_SaveProgram w p))) \<le> k'"
    by (cases k; cases "k - 1") auto
  obtain err st2 where sp: "SaveProgram (save_program_io w) ?dbp ?st1 = (err, st2)"
    by (cases "SaveProgram (save_program_io w) ?dbp ?st1")
  show ?thesis
  proof (cases err)
    case None
    from k' have "sum_list (map action_work (after_SaveProgram w p)) \<le> k'" by simp
    from run_alone_pending[OF this, of w p st2] sp None show ?thesis
      unfolding k by (simp add: processProgram_def Let_def do_all_after_SaveProgram)
  next
    case (Some e)
    from k' have "sum_list (map action_work [Log (ErrorSavingProgram (Handle p) e)]) \<le> k'" by simp
    from run_alone_pending[OF this, of w p st2] sp Some show ?thesis
      unfolding k by (simp add: processProgram_def Let_def)
  qed
qed

lemma owed_finished: "pc_of g = Pending [] \<Longrightarrow> owed g = {}"
  by (cases g) (simp add: pc_of_def)

lemma started_set_finished:
  assumes "\<forall>i < length gs. pc_of (gs ! i) \<noteq> Start"
  shows "started_set gs = mset (map (\<lambda>g. Handle (program_of g)) gs)"
proof -
  from assms have "\<forall>g \<in> set gs. pc_of g \<noteq> Start" by (metis in_set_conv_nth)
  then have "filter_mset (\<lambda>g. pc_of g \<noteq> Start) (mset gs) = mset gs"
    by (simp add: filter_mset_eq_conv)
  then show ?thesis by (simp add: started_set_def)
qed

lemma RunScan_listed:
  assumes l: "listing w = Inr ps"
  shows "fst (RunScan w st) = None \<and>
      (\<exists>new. logged (snd (RunScan w st)) = logged st @ new \<and>
             mset (started new) = mset (map Handle ps) \<and> last new = ScanCompleted \<and>
             (\<forall>i < length ps. processed (program_worlds w i) (ps ! i) new (snd (RunScan w st))))"
proof -
  define n where "n = length (logged st)"
  define gs0 where "gs0 = map (\<lambda>i. (program_worlds w i, ps ! i, Start)) [0..<length ps]"
  define st2 where "st2 = say (FoundPrograms (length ps)) (say FetchingPrograms (say StartingScan st))"
  define c1 where "c1 = run (goroutine_sched w) (gs0, st2)"
  define c2 where "c2 = run (wait_schedule (fst c1)) c1"
  define stF where "stF = say ScanCompleted (snd c2)"
  have res: "RunScan w st = (None, stF)"
    using l by (simp add: RunScan_def Let_def stF_def c2_def c1_def st2_def gs0_def)
  have len0: "length gs0 = length ps" by (simp add: gs0_def)
  have g0: "gs0 ! i = (program_worlds w i, ps ! i, Start)" if "i < length ps" for i
    using that by (simp add: gs0_def)
  have "\<forall>g \<in> set gs0. pc_of g = Start" by (auto simp: gs0_def pc_of_def)
  then have "filter_mset (\<lambda>g. pc_of g \<noteq> Start) (mset gs0) = {#}"
    by (induction gs0) auto
  then have "started_set gs0 = {#}" by (simp add: started_set_def)
  then have i0: "scan_inv n (logged st) gs0 (gs0, st2)"
    using g0 by (simp add: scan_inv_def n_def st2_def len0)
  then have i1: "scan_inv n (logged st) gs0 c1" unfolding c1_def by (rule inv_run)
  then have i2: "scan_inv n (logged st) gs0 c2" unfolding c2_def by (rule inv_run)
  from i1 have len1: "length (fst c1) = length ps" by (simp add: scan_inv_def len0)
  from i2 have len2: "length (fst c2) = length ps" by (simp add: scan_inv_def len0)
  have fin: "pc_of (fst c2 ! i) = Pending []" if "i < length ps" for i
    using wait_finishes[of "fst c1" "snd c1"] that len1 by (simp add: c2_def)
  from i2 have n2: "n \<le> length (logged (snd c2))" and tk: "take n (logged (snd c2)) = logged st"
    and ms: "mset (started (drop n (logged (snd c2)))) = started_set (fst c2)"
    and per: "\<And>i. i < length ps \<Longrightarrow> program_of (fst c2 ! i) = program_of (gs0 ! i) \<and>
         (\<forall>f \<in> owed (gs0 ! i). holds n f (snd c2) \<or> f \<in> owed (fst c2 ! i))"
    by (simp_all add: scan_inv_def len0)
  define new where "new = drop n (logged stF)"
  have new_eq: "new = drop n (logged (snd c2)) @ [ScanCompleted]"
    using n2 by (simp add: new_def stF_def)
  have lg: "logged stF = logged st @ new"
  proof -
    have "logged stF = take n (logged stF) @ drop n (logged stF)" by simp
    moreover have "take n (logged stF) = logged st" using n2 tk by (simp add: stF_def)
    ultimately show ?thesis by (simp add: new_def)
  qed
  have progs: "map (\<lambda>g. Handle (program_of g)) (fst c2) = map Handle ps"
  proof (rule nth_equalityI)
    show "length (map (\<lambda>g. Handle (program_of g)) (fst c2)) = length (map Handle ps)"
      by (simp add: len2)
  next
    fix i assume "i < length (map (\<lambda>g. Handle (program_of g)) (fst c2))"
    then have i: "i < length ps" by (simp add: len2)
    with per[OF i] g0[OF i] show "map (\<lambda>g. Handle (program_of g)) (fst c2) ! i = map Handle ps ! i"
      by (simp add: len2 program_of_def)
  qed
  have "\<forall>i < length (fst c2). pc_of (fst c2 ! i) \<noteq> Start" using fin len2 by simp
  from started_set_finished[OF this] ms progs
  have st: "mset (started new) = mset (map Handle ps)"
    by (simp add: new_eq started_append)
  have la: "last new = ScanCompleted" by (simp add: new_eq)
  have pr: "processed (program_worlds w i) (ps ! i) new stF" if i: "i < length ps" for i
  proof (rule processed_from_owed[where n = n])
    show "new = drop n (logged stF)" by (simp add: new_def)
    show "\<forall>f \<in> owed (program_worlds w i, ps ! i, Start). holds n f stF"
    proof
      fix f assume "f \<in> owed (program_worlds w i, ps ! i, Start)"
      with per[OF i] g0[OF i] owed_finished[OF fin[OF i]] have "holds n f (snd c2)" by auto
      then show "holds n f stF" unfolding stF_def by (rule holds_say)
    qed
  qed
  from lg st la pr show ?thesis unfolding res by auto
qed

lemma example_run:
  "map (\<lambda>r. (domain r, program r, status r))
     (domains (store (snd (RunScan example_world example_state))))
   = [(''globex.example'', ''globex'', ''up'')] \<and>
   started (logged (snd (RunScan example_world example_state))) = [''globex'', ''acme'']"
  by code_simp

text \<open>
  Claim C8.  \<open>RunScan\<close> returns an error if and only if the listing of the programs
  fails.  When the listing succeeds, then for every order in which the goroutines take
  their steps and whatever fails inside the processing of the programs (the insert of
  the program, the scope, the discovery, a probe, the saving of a domain), \<open>RunScan\<close>
  returns no error, the scan reaches its last line, and every listed program has been
  processed: its processing was started exactly once, and it was carried through
  (\<open>processed\<close>): either the failure of its own insert into \<open>programs\<close> is logged, or its
  row is in \<open>programs\<close>, a failed scope fetch is logged, and it was skipped for want of
  domains or its domains were checked, saved and its last line logged.  The steps that
  \<open>RunScan\<close> schedules for a program are those of \<open>processProgram\<close>: taken without
  another goroutine in between, they leave the state that \<open>processProgram\<close> leaves.
\<close>

theorem RunScan_error_iff_listing_fails:
  "(fst (RunScan w st) \<noteq> None \<longleftrightarrow> (\<exists>err. listing w = Inl err)) \<and>
   (\<forall>ps. listing w = Inr ps \<longrightarrow>
      fst (RunScan w st) = None \<and>
      (\<exists>new. logged (snd (RunScan w st)) = logged st @ new \<and>
             mset (started new) = mset (map Handle ps) \<and> last new = ScanCompleted \<and>
             (\<forall>i < length ps. processed (program_worlds w i) (ps ! i) new (snd (RunScan w st)))) \<and>
      (\<forall>i < length ps. \<forall>st'.
         run (replicate (work (program_worlds w i, ps ! i, Start)) 0)
             ([(program_worlds w i, ps ! i, Start)], st') =
           ([(program_worlds w i, ps ! i, Pending [])],
            snd (processProgram (program_worlds w i) (ps ! i) st'))))"
proof (cases "listing w")
  case (Inl err)
  then show ?thesis by (simp add: RunScan_def Let_def)
next
  case (Inr ps)
  have alone: "run (replicate (work (pw, p, Start)) 0) ([(pw, p, Start)], st') =
           ([(pw, p, Pending [])], snd (processProgram pw p st'))" for pw p st'
    by (rule goroutine_alone) simp
  from RunScan_listed[OF Inr, of st] Inr alone show ?thesis by simp
qed

theorem RunScan_error_iff_listing_fails_witness:
  "listing example_world = Inr example_programs \<and>
   fst (processProgram (program_worlds example_world 0) (example_programs ! 0) example_state)
     = Some StoreError \<and>
   fst (RunScan example_world example_state) = None \<and>
   ErrorSavingProgram ''acme'' StoreError
     \<in> set (logged (snd (RunScan example_world example_state))) \<and>
   CompletedProgram ''globex'' \<in> set (logged (snd (RunScan example_world example_state))) \<and>
   started (logged (snd (RunScan example_world example_state))) = [''globex'', ''acme'']"
proof -
  have l: "listing example_world = Inr example_programs" by (simp add: example_world_def)
  have f: "fst (processProgram (program_worlds example_world 0) (example_programs ! 0) example_state)
     = Some StoreError"
    by (simp add: processProgram_error example_world_def example_program_world_def SaveProgram_def)
  from RunScan_error_iff_listing_fails[of example_world example_state] l
  obtain new where n: "fst (RunScan example_world example_state) = None"
    "logged (snd (RunScan example_world example_state)) = logged example_state @ new"
    "\<forall>i < length example_programs.
        processed (program_worlds example_world i) (example_programs ! i) new
          (snd (RunScan example_world example_state))"
    by blast
  have lg: "logged example_state = []" by (simp add: example_state_def)
  have len: "length example_programs = 2" by (simp add: example_programs_def)
  from n(3)[rule_format, of 0] len
  have "processed (program_worlds example_world 0) (example_programs ! 0) new
          (snd (RunScan example_world example_state))"
    by simp
  then have a: "ErrorSavingProgram ''acme'' StoreError \<in> set new"
    by (simp add: processed_def Let_def example_world_def example_program_world_def
          upsert_fails_def example_programs_def)
  from n(3)[rule_format, of 1] len
  have "processed (program_worlds example_world 1) (example_programs ! 1) new
          (snd (RunScan example_world example_state))"
    by simp
  then have b: "CompletedProgram ''globex'' \<in> set new"
    by (simp add: processed_def Let_def example_world_def example_program_world_def
          upsert_fails_def example_programs_def base_domains_def)
  have s: "started (logged (snd (RunScan example_world example_state))) = [''globex'', ''acme'']"
    by code_simp
  from l f n(1,2) lg a b s show ?thesis by simp
qed

end
